theory Spec2Isabelle
  imports Complex_Main "HOL-Library.Word"
begin

unbundle bit_operations_syntax

section \<open>Data model of the editor store\<close>

text \<open>
  A pixel is one element of a \<^verbatim>\<open>Uint32Array\<close>: a 32-bit word, alpha in the top byte.
  A frame is the array itself. Everything the source types as \<^verbatim>\<open>number\<close> and uses
  as a coordinate, an index or a colour is an \<open>int\<close>: colours built by
  \<^verbatim>\<open>(0xff << 24) | ...\<close> are negative numbers in JavaScript, and only the store
  into a typed array reduces them modulo \<open>2 ^ 32\<close>.
\<close>

type_synonym pixel = "32 word"
type_synonym Uint32Array = "pixel list"
type_synonym Point = "int \<times> int"

datatype TemaUI = Oscuro | Claro | Gris | Verde

datatype Tool = Pencil | Eraser | Picker | Fill | Lasso

record EditorState =
  tema :: TemaUI
  w :: int
  h :: int
  zoom :: real
  showGrid :: bool
  fps :: real
  tool :: Tool
  color :: int
  brushRadius :: int
  onionPrev :: bool
  onionNext :: bool
  onionOpacity :: real

record ClipboardData =
  cw :: int
  ch :: int
  pixels :: Uint32Array

record UndoSnapshot =
  sframes :: "Uint32Array list"
  sactive :: int

text \<open>The advisory messages of \<^verbatim>\<open>setAviso\<close>, by their content (the numbers they print).\<close>

datatype Aviso =
    LienzoCambiado int int int int
  | SeleccionCopiada
  | NoHayPixeles
  | AutocropListo bool int int int int
  | ContenidoCentrado

text \<open>
  The signals and private fields of \<^verbatim>\<open>EditorStore\<close>. A \<^verbatim>\<open>Set<number>\<close> is the
  list of its elements in insertion order, a \<^verbatim>\<open>Map<number, number>\<close> the list of its
  entries in insertion order; \<open>None\<close> is \<^verbatim>\<open>null\<close>. The signals of the imported
  source image and of the palette mode hold browser objects and are left out.
\<close>

record EditorStore =
  state :: EditorState
  frames :: "Uint32Array list"
  active :: int
  uiAviso :: "Aviso option"
  mousePixel :: Point
  selectionPath :: "Point list option"
  selectionMask :: "int list option"
  isSelecting :: bool
  moving :: bool
  moveStart :: "Point option"
  moveDx :: int
  moveDy :: int
  floatingPixels :: "(int \<times> pixel option) list option"
  baseWhileMoving :: "Uint32Array option"
  clipboard :: "ClipboardData option"
  undoStack :: "UndoSnapshot list"
  recentColors :: "int list"

subsection \<open>Typed arrays and numbers\<close>

definition toUint32 :: "int \<Rightarrow> pixel" where
  "toUint32 n = word_of_int n"

text \<open>\<^verbatim>\<open>fr[i]\<close>: \<open>None\<close> is \<^verbatim>\<open>undefined\<close>, the value of a read out of range.\<close>

definition rd :: "Uint32Array \<Rightarrow> int \<Rightarrow> pixel option" where
  "rd fr i = (if 0 \<le> i \<and> i < int (length fr) then Some (fr ! nat i) else None)"

text \<open>\<^verbatim>\<open>fr[i] = v\<close>: a typed array ignores a store out of range.\<close>

definition wr :: "Uint32Array \<Rightarrow> int \<Rightarrow> pixel \<Rightarrow> Uint32Array" where
  "wr fr i v = (if 0 \<le> i \<and> i < int (length fr) then fr[nat i := v] else fr)"

text \<open>What a typed array keeps of a value that was read: \<^verbatim>\<open>undefined\<close> becomes 0.\<close>

definition stored :: "pixel option \<Rightarrow> pixel" where
  "stored v = (case v of None \<Rightarrow> 0 | Some c \<Rightarrow> c)"

text \<open>\<^verbatim>\<open>(col >>> 24) & 0xff\<close>.\<close>

definition alpha :: "pixel \<Rightarrow> pixel" where
  "alpha col = drop_bit 24 col AND 255"

text \<open>\<^verbatim>\<open>new Uint32Array(fr)\<close>: a copy; of \<^verbatim>\<open>undefined\<close>, the empty array.\<close>

definition newUint32Array :: "Uint32Array option \<Rightarrow> Uint32Array" where
  "newUint32Array fr = (case fr of None \<Rightarrow> [] | Some a \<Rightarrow> a)"

definition makeFrame :: "int \<Rightarrow> int \<Rightarrow> pixel \<Rightarrow> Uint32Array" where
  "makeFrame W H fill = replicate (nat (W * H)) fill"

text \<open>\<^verbatim>\<open>xs.slice(b, e)\<close> with JavaScript's negative offsets counted from the end.\<close>

definition slice :: "'a list \<Rightarrow> int \<Rightarrow> int \<Rightarrow> 'a list" where
  "slice xs b e =
     (let n = int (length xs);
          b' = (if b < 0 then max (n + b) 0 else min b n);
          e' = (if e < 0 then max (n + e) 0 else min e n)
      in take (nat (e' - b')) (drop (nat b') xs))"

text \<open>
  \<^verbatim>\<open>frames()[active()]\<close>, and \<^verbatim>\<open>nf[a] = out\<close> on a copy of the frame list. With
  the index out of range the source would add a property or grow the array with holes; the
  list is left as it is there, and no theorem below goes through that branch.
\<close>

definition activeFrame :: "EditorStore \<Rightarrow> Uint32Array option" where
  "activeFrame s =
     (if 0 \<le> active s \<and> active s < int (length (frames s))
      then Some (frames s ! nat (active s)) else None)"

definition replaceActiveFrame :: "Uint32Array \<Rightarrow> EditorStore \<Rightarrow> EditorStore" where
  "replaceActiveFrame newFrame s =
     (let a = active s; nf = frames s
      in s\<lparr>frames := (if 0 \<le> a \<and> a < int (length nf) then nf[nat a := newFrame] else nf)\<rparr>)"

subsection \<open>The store as constructed\<close>

definition initialState :: EditorState where
  "initialState =
     \<lparr>tema = Oscuro, w = 32, h = 32, zoom = 12, showGrid = True, fps = 12,
      tool = Pencil, color = 0xff000000, brushRadius = 0,
      onionPrev = True, onionNext = True, onionOpacity = 1 / 4\<rparr>"

definition initialStore :: EditorStore where
  "initialStore =
     \<lparr>state = initialState, frames = [makeFrame 32 32 0], active = 0, uiAviso = None,
      mousePixel = (0, 0), selectionPath = None, selectionMask = None,
      isSelecting = False, moving = False, moveStart = None, moveDx = 0, moveDy = 0,
      floatingPixels = None, baseWhileMoving = None, clipboard = None, undoStack = [],
      recentColors = [0xff000000]\<rparr>"

section \<open>Selection state and undo history\<close>

definition stopMoving :: "EditorStore \<Rightarrow> EditorStore" where
  "stopMoving s =
     s\<lparr>moving := False, moveStart := None, moveDx := 0, moveDy := 0,
       floatingPixels := None, baseWhileMoving := None\<rparr>"

definition clearSelection :: "EditorStore \<Rightarrow> EditorStore" where
  "clearSelection s =
     stopMoving (s\<lparr>selectionPath := None, selectionMask := None, isSelecting := False\<rparr>)"

definition maxUndo :: nat where
  "maxUndo = 60"

text \<open>\<^verbatim>\<open>push\<close> appends at the end of the stack, \<^verbatim>\<open>shift\<close> removes its first entry.\<close>

definition pushUndo :: "EditorStore \<Rightarrow> EditorStore" where
  "pushUndo s =
     (let snap = \<lparr>sframes = frames s, sactive = active s\<rparr>;
          st = undoStack s @ [snap]
      in s\<lparr>undoStack := (if length st > maxUndo then tl st else st)\<rparr>)"

definition undo :: "EditorStore \<Rightarrow> EditorStore" where
  "undo s =
     (case undoStack s of
        [] \<Rightarrow> s
      | _ # _ \<Rightarrow>
          (let snap = last (undoStack s);
               s1 = s\<lparr>undoStack := butlast (undoStack s)\<rparr>;
               s2 = s1\<lparr>frames := sframes snap\<rparr>;
               s3 = s2\<lparr>active := min (sactive snap) (int (length (frames s2)) - 1)\<rparr>
           in clearSelection s3))"

section \<open>Brush radius\<close>

definition setBrushRadius :: "real \<Rightarrow> EditorStore \<Rightarrow> EditorStore" where
  "setBrushRadius r s =
     (let rr = max 0 (min 20 \<lfloor>r\<rfloor>)
      in s\<lparr>state := (state s)\<lparr>brushRadius := rr\<rparr>\<rparr>)"

definition incBrushRadius :: "EditorStore \<Rightarrow> EditorStore" where
  "incBrushRadius s = setBrushRadius (of_int (brushRadius (state s) + 1)) s"

definition decBrushRadius :: "EditorStore \<Rightarrow> EditorStore" where
  "decBrushRadius s = setBrushRadius (of_int (brushRadius (state s) - 1)) s"

section \<open>Frames\<close>

definition addFrame :: "EditorStore \<Rightarrow> EditorStore" where
  "addFrame s0 =
     (let s = pushUndo s0;
          blank = makeFrame (w (state s)) (h (state s)) 0;
          s1 = s\<lparr>frames := frames s @ [blank]\<rparr>
      in s1\<lparr>active := int (length (frames s1)) - 1\<rparr>)"

definition duplicateFrame :: "EditorStore \<Rightarrow> EditorStore" where
  "duplicateFrame s0 =
     (let s = pushUndo s0;
          clone = newUint32Array (activeFrame s);
          s1 = s\<lparr>frames := frames s @ [clone]\<rparr>
      in s1\<lparr>active := int (length (frames s1)) - 1\<rparr>)"

definition deleteFrame :: "EditorStore \<Rightarrow> EditorStore" where
  "deleteFrame s0 =
     (let f = frames s0 in
      if length f \<le> 1 then s0
      else
        (let s = pushUndo s0;
             idx = active s;
             nf = slice f 0 idx @ slice f (idx + 1) (int (length f));
             s1 = s\<lparr>frames := nf\<rparr>;
             s2 = s1\<lparr>active := max 0 (idx - 1)\<rparr>
         in clearSelection s2))"

section \<open>Recent colours and the brush stamp\<close>

definition maxRecentColors :: nat where
  "maxRecentColors = 20"

definition pushRecentColorUsado :: "int \<Rightarrow> EditorStore \<Rightarrow> EditorStore" where
  "pushRecentColorUsado c s =
     (if alpha (toUint32 c) = 0 then s
      else s\<lparr>recentColors := take maxRecentColors (c # filter (\<lambda>d. d \<noteq> c) (recentColors s))\<rparr>)"

text \<open>The body of the two loops of \<^verbatim>\<open>stamp\<close>, at the offset \<open>(ox, oy)\<close>.\<close>

definition stampAt :: "EditorState \<Rightarrow> int \<Rightarrow> int \<Rightarrow> int \<Rightarrow> int \<Rightarrow> int \<Rightarrow> Uint32Array \<Rightarrow> Uint32Array" where
  "stampAt st x y c oy ox out =
     (let nx = x + ox; ny = y + oy
      in if nx < 0 \<or> ny < 0 \<or> nx \<ge> w st \<or> ny \<ge> h st then out
         else wr out (ny * w st + nx) (toUint32 c))"

definition stamp :: "int \<Rightarrow> int \<Rightarrow> int \<Rightarrow> EditorStore \<Rightarrow> EditorStore" where
  "stamp x y c s =
     (let st = state s;
          r = brushRadius st;
          out = fold (\<lambda>oy. fold (stampAt st x y c oy) [- r..r]) [- r..r]
                  (newUint32Array (activeFrame s));
          s1 = replaceActiveFrame out s
      in if tool (state s1) = Pencil then pushRecentColorUsado c s1 else s1)"

section \<open>Canvas size\<close>

text \<open>The body of the two loops of \<^verbatim>\<open>setCanvasSize\<close>, at the old position \<open>(x, y)\<close>.\<close>

definition resizeAt :: "Uint32Array \<Rightarrow> int \<Rightarrow> int \<Rightarrow> int \<Rightarrow> int \<Rightarrow> int \<Rightarrow> int \<Rightarrow> int \<Rightarrow> Uint32Array \<Rightarrow> Uint32Array" where
  "resizeAt fr oldW W H offX offY y x out =
     (let col = rd fr (y * oldW + x)
      in if alpha (stored col) = 0 then out
         else
           (let nx = x + offX; ny = y + offY
            in if nx < 0 \<or> ny < 0 \<or> nx \<ge> W \<or> ny \<ge> H then out
               else wr out (ny * W + nx) (stored col)))"

definition resizeFrame :: "int \<Rightarrow> int \<Rightarrow> int \<Rightarrow> int \<Rightarrow> Uint32Array \<Rightarrow> Uint32Array" where
  "resizeFrame oldW oldH W H fr =
     (let offX = (W - oldW) div 2; offY = (H - oldH) div 2
      in fold (\<lambda>y. fold (resizeAt fr oldW W H offX offY y) [0..oldW - 1]) [0..oldH - 1]
           (makeFrame W H 0))"

definition setCanvasSize :: "real \<Rightarrow> real \<Rightarrow> EditorStore \<Rightarrow> EditorStore" where
  "setCanvasSize newW newH s0 =
     (let W = max 8 (min 512 \<lfloor>newW\<rfloor>);
          H = max 8 (min 512 \<lfloor>newH\<rfloor>);
          st = state s0
      in if W = w st \<and> H = h st then s0
         else
           (let s = pushUndo s0;
                oldW = w st;
                oldH = h st;
                resized = map (resizeFrame oldW oldH W H) (frames s);
                s1 = s\<lparr>frames := resized\<rparr>;
                s2 = s1\<lparr>state := (state s1)\<lparr>w := W, h := H\<rparr>\<rparr>;
                s3 = clearSelection s2
            in s3\<lparr>uiAviso := Some (LienzoCambiado oldW oldH W H)\<rparr>))"


section \<open>Invariants and the spec's own notions\<close>

text \<open>Every frame has the configured size; the active index points into the frame list.\<close>

definition framesOk :: "EditorStore \<Rightarrow> bool" where
  "framesOk s = (\<forall>fr \<in> set (frames s). int (length fr) = w (state s) * h (state s))"

definition activeOk :: "EditorStore \<Rightarrow> bool" where
  "activeOk s = (0 \<le> active s \<and> active s < int (length (frames s)))"

text \<open>
  The spec's square of side \<open>2r + 1\<close> centred at \<open>(x, y)\<close>, clipped to the canvas, as
  a set of pixel positions.
\<close>

definition stampSquare :: "int \<Rightarrow> int \<Rightarrow> int \<Rightarrow> int \<Rightarrow> int \<Rightarrow> (int \<times> int) set" where
  "stampSquare r x y W H =
     {(px, py). \<bar>px - x\<bar> \<le> r \<and> \<bar>py - y\<bar> \<le> r \<and> 0 \<le> px \<and> px < W \<and> 0 \<le> py \<and> py < H}"

text \<open>A store whose history is full: 60 snapshots of the initial frame.\<close>

definition fullHistoryStore :: EditorStore where
  "fullHistoryStore =
     initialStore\<lparr>undoStack := replicate 60 \<lparr>sframes = [makeFrame 32 32 0], sactive = 0\<rparr>\<rparr>"

text \<open>
  A store with a full history of snapshots of the blank frame whose one live frame has
  been painted at \<open>(0, 0)\<close> since.
\<close>

definition paintedHistoryStore :: EditorStore where
  "paintedHistoryStore = fullHistoryStore\<lparr>frames := [(makeFrame 32 32 0)[0 := 0xff000000]]\<rparr>"



text \<open>An 8 by 8 canvas with one frame, black at \<open>(0, 0)\<close> and transparent elsewhere.\<close>

definition cornerStore :: EditorStore where
  "cornerStore =
     initialStore\<lparr>state := initialState\<lparr>w := 8, h := 8\<rparr>,
                  frames := [(makeFrame 8 8 0)[0 := 0xff000000]]\<rparr>"


section \<open>Lasso selection\<close>

text \<open>\<^verbatim>\<open>mask.add(v)\<close> on a set kept in insertion order.\<close>

definition setAdd :: "int \<Rightarrow> int list \<Rightarrow> int list" where
  "setAdd v m = (if v \<in> set m then m else m @ [v])"

definition startLasso :: "int \<Rightarrow> int \<Rightarrow> EditorStore \<Rightarrow> EditorStore" where
  "startLasso x y s = s\<lparr>selectionPath := Some [(x, y)], selectionMask := None, isSelecting := True\<rparr>"

definition pushLassoPoint :: "int \<Rightarrow> int \<Rightarrow> EditorStore \<Rightarrow> EditorStore" where
  "pushLassoPoint x y s =
     (case selectionPath s of
        None \<Rightarrow> s
      | Some path \<Rightarrow> s\<lparr>selectionPath := Some (path @ [(x, y)])\<rparr>)"

text \<open>
  The test \<^verbatim>\<open>intersect\<close> of \<^verbatim>\<open>pointInPolygon\<close> for the edge from \<open>poly[j]\<close> to
  \<open>poly[i]\<close>. The quotient is taken in the reals: on integer coordinates of canvas size the
  floating-point quotient lies on the same side of every integer.
\<close>

definition intersect :: "int \<Rightarrow> int \<Rightarrow> Point \<Rightarrow> Point \<Rightarrow> bool" where
  "intersect x y vi vj =
     (let xi = fst vi; yi = snd vi; xj = fst vj; yj = snd vj
      in (yi > y) \<noteq> (yj > y) \<and>
         real_of_int x < real_of_int ((xj - xi) * (y - yi)) / real_of_int (yj - yi) + real_of_int xi)"

text \<open>
  The loop of \<^verbatim>\<open>pointInPolygon\<close> from index \<open>i\<close> on: the vertices still to visit,
  the vertex \<open>poly[j]\<close> visited before, and \<^verbatim>\<open>inside\<close>.
\<close>

fun pipLoop :: "int \<Rightarrow> int \<Rightarrow> Point list \<Rightarrow> Point \<Rightarrow> bool \<Rightarrow> bool" where
  "pipLoop x y [] vj inside = inside"
| "pipLoop x y (vi # rest) vj inside =
     pipLoop x y rest vi (if intersect x y vi vj then \<not> inside else inside)"

definition pointInPolygon :: "int \<Rightarrow> int \<Rightarrow> Point list \<Rightarrow> bool" where
  "pointInPolygon x y poly = (case poly of [] \<Rightarrow> False | _ # _ \<Rightarrow> pipLoop x y poly (last poly) False)"

definition lassoAt :: "EditorState \<Rightarrow> Point list \<Rightarrow> int \<Rightarrow> int \<Rightarrow> int list \<Rightarrow> int list" where
  "lassoAt st path y x m =
     (if pointInPolygon x y path then setAdd (y * w st + x) m else m)"

definition finishLasso :: "EditorStore \<Rightarrow> EditorStore" where
  "finishLasso s =
     (case selectionPath s of
        None \<Rightarrow> clearSelection s
      | Some path \<Rightarrow>
          if length path < 3 then clearSelection s
          else
            (let st = state s;
                 m = fold (\<lambda>y. fold (lassoAt st path y) [0..w st - 1]) [0..h st - 1] [];
                 s1 = s\<lparr>selectionMask := (if m \<noteq> [] then Some m else None)\<rparr>
             in s1\<lparr>isSelecting := False\<rparr>))"

text \<open>
  The spec's parity test: the edges of the closed polygon, each vertex with the one before
  it, and the number of them a ray from \<open>(x, y)\<close> crosses.
\<close>

definition polygonEdges :: "Point list \<Rightarrow> (Point \<times> Point) list" where
  "polygonEdges poly = (case poly of [] \<Rightarrow> [] | _ # _ \<Rightarrow> zip poly (last poly # butlast poly))"

definition insidePolygon :: "int \<Rightarrow> int \<Rightarrow> Point list \<Rightarrow> bool" where
  "insidePolygon x y poly =
     odd (length (filter (\<lambda>(vi, vj). intersect x y vi vj) (polygonEdges poly)))"

text \<open>The 8 by 8 canvas with a lasso path of three vertices recorded.\<close>

definition triangleStore :: EditorStore where
  "triangleStore = cornerStore\<lparr>selectionPath := Some [(1, 1), (4, 1), (1, 4)], isSelecting := True\<rparr>"

section \<open>Moving the selection\<close>

text \<open>
  Reading an element of \<^verbatim>\<open>undefined\<close> throws: \<^verbatim>\<open>frame[idx]\<close> when the active index
  points at no frame.
\<close>

datatype error = TypeError

text \<open>
  \<^verbatim>\<open>a % b\<close>: the remainder of the division truncated towards zero (for \<open>b = 0\<close> the source
  gets \<^verbatim>\<open>NaN\<close>; the canvas width is never 0).
\<close>

definition jsRem :: "int \<Rightarrow> int \<Rightarrow> int" where
  "jsRem a b = sgn a * (\<bar>a\<bar> mod \<bar>b\<bar>)"

text \<open>\<^verbatim>\<open>floatMap.set(k, v)\<close> on a map kept as its entries in insertion order.\<close>

definition mapSet :: "int \<Rightarrow> pixel option \<Rightarrow> (int \<times> pixel option) list \<Rightarrow> (int \<times> pixel option) list" where
  "mapSet k v m =
     (if k \<in> fst ` set m then map (\<lambda>(k', v'). if k' = k then (k', v) else (k', v')) m
      else m @ [(k, v)])"

text \<open>The body of the loop of \<^verbatim>\<open>startMoveSelection\<close>, on \<open>(base, floatMap)\<close>.\<close>

definition liftAt :: "Uint32Array \<Rightarrow> int \<Rightarrow> Uint32Array \<times> (int \<times> pixel option) list
    \<Rightarrow> Uint32Array \<times> (int \<times> pixel option) list" where
  "liftAt frame idx = (\<lambda>(base, floatMap). (wr base idx 0, mapSet idx (rd frame idx) floatMap))"

definition startMoveSelection :: "int \<Rightarrow> int \<Rightarrow> EditorStore \<Rightarrow> error + EditorStore" where
  "startMoveSelection startX startY s0 =
     (case selectionMask s0 of
        None \<Rightarrow> Inr s0
      | Some m \<Rightarrow>
          if m = [] then Inr s0
          else
            (let s = pushUndo s0 in
             case activeFrame s of
               None \<Rightarrow> Inl TypeError
             | Some frame \<Rightarrow>
                 (let (base, floatMap) = fold (liftAt frame) m (frame, []);
                      s1 = s\<lparr>baseWhileMoving := Some base\<rparr>;
                      s2 = s1\<lparr>floatingPixels := Some floatMap\<rparr>
                  in Inr (s2\<lparr>moving := True, moveStart := Some (startX, startY),
                              moveDx := 0, moveDy := 0\<rparr>))))"

definition updateMoveSelection :: "int \<Rightarrow> int \<Rightarrow> EditorStore \<Rightarrow> EditorStore" where
  "updateMoveSelection currX currY s =
     (if \<not> moving s then s
      else
        (case moveStart s of
           None \<Rightarrow> s
         | Some start \<Rightarrow> s\<lparr>moveDx := currX - fst start, moveDy := currY - snd start\<rparr>))"

text \<open>The body of the loop of \<^verbatim>\<open>endMoveSelection\<close>, on \<open>(out, newMask)\<close>.\<close>

definition dropAt :: "EditorState \<Rightarrow> int \<Rightarrow> int \<Rightarrow> int \<times> pixel option
    \<Rightarrow> Uint32Array \<times> int list \<Rightarrow> Uint32Array \<times> int list" where
  "dropAt st dx dy = (\<lambda>(idx, col) (out, newMask).
     (let ox = jsRem idx (w st);
          oy = idx div w st;
          nx = ox + dx;
          ny = oy + dy
      in if nx < 0 \<or> ny < 0 \<or> nx \<ge> w st \<or> ny \<ge> h st then (out, newMask)
         else
           (let nidx = ny * w st + nx
            in (wr out nidx (stored col), setAdd nidx newMask))))"

definition endMoveSelection :: "EditorStore \<Rightarrow> EditorStore" where
  "endMoveSelection s =
     (if \<not> moving s then s
      else
        (case (baseWhileMoving s, floatingPixels s, selectionMask s) of
           (Some base, Some floatMap, Some m) \<Rightarrow>
             (let (out, newMask) = fold (dropAt (state s) (moveDx s) (moveDy s)) floatMap (base, []);
                  s1 = replaceActiveFrame out s;
                  s2 = s1\<lparr>selectionMask := (if newMask \<noteq> [] then Some newMask else None)\<rparr>
              in stopMoving s2)
         | _ \<Rightarrow> stopMoving s))"

text \<open>A selection mask as the store keeps it: a set of pixel indices of the canvas.\<close>

definition maskOk :: "EditorState \<Rightarrow> int list \<Rightarrow> bool" where
  "maskOk st m = (distinct m \<and> (\<forall>idx \<in> set m. 0 \<le> idx \<and> idx < w st * h st))"


text \<open>
  Where the floating pixel lifted from index \<open>idx\<close> lands, and whether the bounds check of
  \<^verbatim>\<open>endMoveSelection\<close> drops it.
\<close>

definition landsOn :: "EditorState \<Rightarrow> int \<Rightarrow> int \<Rightarrow> int \<Rightarrow> int" where
  "landsOn st dx dy idx = (idx div w st + dy) * w st + (jsRem idx (w st) + dx)"

definition dropped :: "EditorState \<Rightarrow> int \<Rightarrow> int \<Rightarrow> int \<Rightarrow> bool" where
  "dropped st dx dy idx =
     (jsRem idx (w st) + dx < 0 \<or> idx div w st + dy < 0 \<or>
      jsRem idx (w st) + dx \<ge> w st \<or> idx div w st + dy \<ge> h st)"

text \<open>The 8 by 8 canvas with the pixels \<open>(0, 0)\<close> and \<open>(1, 0)\<close> selected.\<close>

definition selectedStore :: EditorStore where
  "selectedStore = cornerStore\<lparr>selectionMask := Some [0, 1]\<rparr>"

section \<open>Copy and paste\<close>

text \<open>
  One round of the loop of \<^verbatim>\<open>boundsFromMask\<close> on \<open>(minX, minY, maxX, maxY)\<close>. The source
  starts from \<open>\<plusminus>\<close>\<^verbatim>\<open>Infinity\<close>, so after the first index all four bounds are the
  coordinates of that index: \<open>None\<close> stands for the four infinities of the empty mask.
\<close>

definition boundsStep :: "int \<Rightarrow> int \<Rightarrow> int \<times> int \<times> int \<times> int \<Rightarrow> int \<times> int \<times> int \<times> int" where
  "boundsStep width idx = (\<lambda>(minX, minY, maxX, maxY).
     (let x = jsRem idx width; y = idx div width
      in (if x < minX then x else minX, if y < minY then y else minY,
          if x > maxX then x else maxX, if y > maxY then y else maxY)))"

definition boundsFromMask :: "int list \<Rightarrow> int \<Rightarrow> (int \<times> int \<times> int \<times> int) option" where
  "boundsFromMask m width =
     (case m of
        [] \<Rightarrow> None
      | idx # rest \<Rightarrow>
          (let x = jsRem idx width; y = idx div width
           in Some (fold (boundsStep width) rest (x, y, x, y))))"

text \<open>The body of the loop of \<^verbatim>\<open>copySelection\<close>.\<close>

definition copyAt :: "EditorState \<Rightarrow> Uint32Array \<Rightarrow> int \<Rightarrow> int \<Rightarrow> int \<Rightarrow> int \<Rightarrow> Uint32Array \<Rightarrow> Uint32Array" where
  "copyAt st frame minX minY cw' idx px =
     (let x = jsRem idx (w st); y = idx div w st; cx = x - minX; cy = y - minY
      in wr px (cy * cw' + cx) (stored (rd frame idx)))"

definition copySelection :: "EditorStore \<Rightarrow> error + EditorStore" where
  "copySelection s =
     (case selectionMask s of
        None \<Rightarrow> Inr s
      | Some m \<Rightarrow>
          if m = [] then Inr s
          else
            (case boundsFromMask m (w (state s)) of
               None \<Rightarrow> Inr s
             | Some (minX, minY, maxX, maxY) \<Rightarrow>
                 (let cw' = maxX - minX + 1;
                      ch' = maxY - minY + 1
                  in case activeFrame s of
                       None \<Rightarrow> Inl TypeError
                     | Some frame \<Rightarrow>
                         (let px = fold (copyAt (state s) frame minX minY cw') m
                                     (replicate (nat (cw' * ch')) 0)
                          in Inr (s\<lparr>clipboard := Some \<lparr>cw = cw', ch = ch', pixels = px\<rparr>,
                                      uiAviso := Some SeleccionCopiada\<rparr>)))))"

text \<open>The body of the two loops of \<^verbatim>\<open>pasteClipboard\<close>, on \<open>(out, newMask)\<close>.\<close>

definition pasteAt :: "EditorState \<Rightarrow> ClipboardData \<Rightarrow> int \<Rightarrow> int \<Rightarrow> int \<Rightarrow> int
    \<Rightarrow> Uint32Array \<times> int list \<Rightarrow> Uint32Array \<times> int list" where
  "pasteAt st clip atX atY y x = (\<lambda>(out, newMask).
     (let col = rd (pixels clip) (y * cw clip + x)
      in if alpha (stored col) = 0 then (out, newMask)
         else
           (let nx = atX + x; ny = atY + y
            in if nx < 0 \<or> ny < 0 \<or> nx \<ge> w st \<or> ny \<ge> h st then (out, newMask)
               else
                 (let nidx = ny * w st + nx
                  in (wr out nidx (stored col), setAdd nidx newMask)))))"

definition pasteClipboard :: "int \<Rightarrow> int \<Rightarrow> EditorStore \<Rightarrow> EditorStore" where
  "pasteClipboard atX atY s0 =
     (case clipboard s0 of
        None \<Rightarrow> s0
      | Some clip \<Rightarrow>
          (let s = pushUndo s0;
               (out, newMask) =
                 fold (\<lambda>y. fold (pasteAt (state s) clip atX atY y) [0..cw clip - 1]) [0..ch clip - 1]
                   (newUint32Array (activeFrame s), []);
               s1 = replaceActiveFrame out s
           in s1\<lparr>selectionMask := (if newMask \<noteq> [] then Some newMask else None)\<rparr>))"

definition pasteClipboardAtMouse :: "EditorStore \<Rightarrow> EditorStore" where
  "pasteClipboardAtMouse s =
     (case clipboard s of
        None \<Rightarrow> s
      | Some clip \<Rightarrow>
          pasteClipboard (fst (mousePixel s) - cw clip div 2) (snd (mousePixel s) - ch clip div 2) s)"

text \<open>Whether the loop body of \<^verbatim>\<open>pasteClipboard\<close> skips the clipboard pixel \<open>(x, y)\<close>.\<close>

definition pasteSkips :: "EditorState \<Rightarrow> ClipboardData \<Rightarrow> int \<Rightarrow> int \<Rightarrow> int \<Rightarrow> int \<Rightarrow> bool" where
  "pasteSkips st clip atX atY y x =
     (alpha (stored (rd (pixels clip) (y * cw clip + x))) = 0 \<or>
      atX + x < 0 \<or> atY + y < 0 \<or> atX + x \<ge> w st \<or> atY + y \<ge> h st)"

section \<open>Flood fill\<close>

text \<open>
  \<^verbatim>\<open>oldColor === newColor\<close>: a value read from the frame against a number. A pixel read
  from a \<^verbatim>\<open>Uint32Array\<close> is a number from 0 to \<open>2\<^sup>3\<^sup>2 - 1\<close>; \<^verbatim>\<open>undefined\<close> equals no
  number.
\<close>

definition sameNumber :: "pixel option \<Rightarrow> int \<Rightarrow> bool" where
  "sameNumber v n = (case v of None \<Rightarrow> False | Some c \<Rightarrow> uint c = n)"

text \<open>
  What the loop body of \<^verbatim>\<open>floodFill\<close> pushes for the position \<open>p = (x, y)\<close>, the last
  push first: \<open>(x - 1, y)\<close> if \<open>x > 0\<close>, \<open>(x + 1, y)\<close> if \<open>x < w - 1\<close>, \<open>(x, y - 1)\<close> if
  \<open>y > 0\<close>, \<open>(x, y + 1)\<close> if \<open>y < h - 1\<close>.
\<close>

definition pushed :: "int \<Rightarrow> int \<Rightarrow> int \<times> int \<Rightarrow> (int \<times> int) list" where
  "pushed W H p =
     (if snd p < H - 1 then [(fst p, snd p + 1)] else []) @
     (if snd p > 0 then [(fst p, snd p - 1)] else []) @
     (if fst p < W - 1 then [(fst p + 1, snd p)] else []) @
     (if fst p > 0 then [(fst p - 1, snd p)] else [])"

text \<open>
  The loop of \<^verbatim>\<open>floodFill\<close>. The stack \<^verbatim>\<open>q\<close> holds coordinates in pairs, pushed
  \<open>x\<close> then \<open>y\<close> and popped \<open>y\<close> then \<open>x\<close>; here each pair is one element and the top
  of the stack is the head of the list. The loop need not end: \<open>None\<close> is a run that never
  leaves it.
\<close>

partial_function (option) fillLoop ::
    "int \<Rightarrow> int \<Rightarrow> pixel option \<Rightarrow> int \<Rightarrow> Uint32Array \<Rightarrow> (int \<times> int) list \<Rightarrow> Uint32Array option" where
  "fillLoop W H oldColor newColor out q =
     (case q of
        [] \<Rightarrow> Some out
      | (x, y) # rest \<Rightarrow>
          if rd out (y * W + x) \<noteq> oldColor then fillLoop W H oldColor newColor out rest
          else fillLoop W H oldColor newColor (wr out (y * W + x) (toUint32 newColor))
                 (pushed W H (x, y) @ rest))"

text \<open>
  \<^verbatim>\<open>floodFill\<close> of the canvas component: \<open>None\<close> when the loop does not end, else the
  store with the filled copy in the active slot.
\<close>

definition floodFill :: "int \<Rightarrow> int \<Rightarrow> Uint32Array \<Rightarrow> int \<Rightarrow> int \<Rightarrow> int \<Rightarrow> EditorStore \<Rightarrow> EditorStore option" where
  "floodFill x0 y0 frame W H newColor s =
     (if x0 < 0 \<or> y0 < 0 \<or> x0 \<ge> W \<or> y0 \<ge> H then Some s
      else
        (let oldColor = rd frame (y0 * W + x0)
         in if sameNumber oldColor newColor then Some s
            else
              (case fillLoop W H oldColor newColor frame [(x0, y0)] of
                 None \<Rightarrow> None
               | Some out \<Rightarrow> Some (replaceActiveFrame out s))))"

definition setTool :: "Tool \<Rightarrow> EditorStore \<Rightarrow> EditorStore" where
  "setTool t s = s\<lparr>state := (state s)\<lparr>tool := t\<rparr>\<rparr>"

definition setColor :: "int \<Rightarrow> EditorStore \<Rightarrow> EditorStore" where
  "setColor c s = s\<lparr>state := (state s)\<lparr>color := c\<rparr>\<rparr>"

text \<open>
  The branch \<^verbatim>\<open>tool === 'fill'\<close> of \<^verbatim>\<open>applyTool\<close>: one undo snapshot, the fill of the
  active frame with the current colour, and the colour registered as used. With no active
  frame \<^verbatim>\<open>frame[y0 * w + x0]\<close> throws once the bounds check has passed.
\<close>

definition applyToolFill :: "int \<Rightarrow> int \<Rightarrow> EditorStore \<Rightarrow> (error + EditorStore) option" where
  "applyToolFill x y s0 =
     (let st = state s0; s = pushUndo s0
      in case activeFrame s of
           None \<Rightarrow>
             if x < 0 \<or> y < 0 \<or> x \<ge> w st \<or> y \<ge> h st
             then Some (Inr (pushRecentColorUsado (color st) s))
             else Some (Inl TypeError)
         | Some frame \<Rightarrow>
             (case floodFill x y frame (w st) (h st) (color st) s of
                None \<Rightarrow> None
              | Some s1 \<Rightarrow> Some (Inr (pushRecentColorUsado (color st) s1))))"

text \<open>\<^verbatim>\<open>hexToArgb\<close> on the six hex digits given as the three channel values.\<close>

definition hexToArgb :: "int \<Rightarrow> int \<Rightarrow> int \<Rightarrow> int" where
  "hexToArgb r g b =
     sint ((push_bit 24 (255 :: 32 word)) OR (push_bit 16 (word_of_int r)) OR
           (push_bit 8 (word_of_int g)) OR word_of_int b)"

text \<open>
  The store after picking red in the colour input (\<^verbatim>\<open>hexToArgb('#ff0000')\<close>, the number
  \<open>- 65536\<close>), drawing the pixels \<open>(0, 0)\<close> and \<open>(1, 0)\<close> with the pencil in one stroke
  and choosing the fill tool.
\<close>

definition redStrokeStore :: EditorStore where
  "redStrokeStore =
     setTool Fill
       (stamp 1 0 (hexToArgb 255 0 0)
          (stamp 0 0 (hexToArgb 255 0 0) (pushUndo (setColor (hexToArgb 255 0 0) initialStore))))"

text \<open>
  A pixel of the old colour next to another one: each of the two is pushed when the other
  is filled.
\<close>

definition paired :: "int \<Rightarrow> int \<Rightarrow> Uint32Array \<Rightarrow> pixel \<Rightarrow> int \<times> int \<Rightarrow> bool" where
  "paired W H out c p =
     (rd out (snd p * W + fst p) = Some c \<and>
      (\<exists>n \<in> set (pushed W H p). p \<in> set (pushed W H n) \<and> rd out (snd n * W + fst n) = Some c))"

text \<open>
  The spec's region of a fill: the 4-connected component of the start position among the
  canvas pixels that hold the start pixel's value.
\<close>

definition inCanvas :: "int \<Rightarrow> int \<Rightarrow> int \<times> int \<Rightarrow> bool" where
  "inCanvas W H p = (0 \<le> fst p \<and> fst p < W \<and> 0 \<le> snd p \<and> snd p < H)"

definition adjacent :: "int \<times> int \<Rightarrow> int \<times> int \<Rightarrow> bool" where
  "adjacent p n = (\<bar>fst p - fst n\<bar> + \<bar>snd p - snd n\<bar> = 1)"

inductive_set component :: "int \<Rightarrow> int \<Rightarrow> Uint32Array \<Rightarrow> int \<times> int \<Rightarrow> (int \<times> int) set"
  for W H :: int and frame :: Uint32Array and p0 :: "int \<times> int" where
    start: "inCanvas W H p0 \<Longrightarrow> p0 \<in> component W H frame p0"
  | step: "p \<in> component W H frame p0 \<Longrightarrow> adjacent p n \<Longrightarrow> inCanvas W H n \<Longrightarrow>
           rd frame (snd n * W + fst n) = rd frame (snd p0 * W + fst p0) \<Longrightarrow>
           n \<in> component W H frame p0"

text \<open>
  What holds of the copy \<open>out\<close> and the stack \<open>q\<close> whenever the loop of \<^verbatim>\<open>floodFill\<close>
  tests its condition: \<open>F\<close> is the set of positions filled so far.
\<close>

definition fillInv :: "int \<Rightarrow> int \<Rightarrow> Uint32Array \<Rightarrow> pixel \<Rightarrow> pixel \<Rightarrow> int \<times> int
    \<Rightarrow> Uint32Array \<Rightarrow> (int \<times> int) list \<Rightarrow> bool" where
  "fillInv W H frame c v p0 out q =
     (int (length out) = W * H \<and> (\<forall>p \<in> set q. inCanvas W H p) \<and>
      (\<exists>F. F \<subseteq> component W H frame p0 \<and>
         (\<forall>p. inCanvas W H p \<longrightarrow>
            rd out (snd p * W + fst p) = (if p \<in> F then Some v else rd frame (snd p * W + fst p))) \<and>
         (\<forall>p \<in> set q. rd frame (snd p * W + fst p) = Some c \<longrightarrow> p \<in> component W H frame p0) \<and>
         (p0 \<in> F \<or> p0 \<in> set q) \<and>
         (\<forall>p \<in> F. \<forall>n \<in> set (pushed W H p).
            rd frame (snd n * W + fst n) = Some c \<longrightarrow> n \<in> F \<or> n \<in> set q)))"

section \<open>Autocrop\<close>

text \<open>
  The body of the loops that look for the drawn rectangle, on
  \<open>(minX, minY, maxX, maxY)\<close>: \<open>None\<close> stands for the four infinities the source starts
  from, which the first pixel with alpha above 0 replaces by its own coordinates.
\<close>

definition scanAt :: "Uint32Array \<Rightarrow> int \<Rightarrow> int \<Rightarrow> int \<Rightarrow> (int \<times> int \<times> int \<times> int) option
    \<Rightarrow> (int \<times> int \<times> int \<times> int) option" where
  "scanAt fr W y x b =
     (if alpha (stored (rd fr (y * W + x))) = 0 then b
      else
        (case b of
           None \<Rightarrow> Some (x, y, x, y)
         | Some (minX, minY, maxX, maxY) \<Rightarrow>
             Some (if x < minX then x else minX, if y < minY then y else minY,
                   if x > maxX then x else maxX, if y > maxY then y else maxY)))"

definition scanFrame :: "int \<Rightarrow> int \<Rightarrow> Uint32Array \<Rightarrow> (int \<times> int \<times> int \<times> int) option
    \<Rightarrow> (int \<times> int \<times> int \<times> int) option" where
  "scanFrame W H fr b = fold (\<lambda>y. fold (scanAt fr W y) [0..W - 1]) [0..H - 1] b"

text \<open>The body of the last two loops of \<^verbatim>\<open>centrarFrame\<close>.\<close>

definition centrarAt :: "Uint32Array \<Rightarrow> int \<Rightarrow> int \<Rightarrow> int \<Rightarrow> int \<Rightarrow> int \<Rightarrow> int \<Rightarrow> Uint32Array \<Rightarrow> Uint32Array" where
  "centrarAt frame W H dx dy y x out =
     (let v = rd frame (y * W + x)
      in if alpha (stored v) = 0 then out
         else
           (let nx = x + dx; ny = y + dy
            in if nx < 0 \<or> ny < 0 \<or> nx \<ge> W \<or> ny \<ge> H then out
               else wr out (ny * W + nx) (stored v)))"

definition centrarFrame :: "Uint32Array \<Rightarrow> int \<Rightarrow> int \<Rightarrow> Uint32Array" where
  "centrarFrame frame W H =
     (case scanFrame W H frame None of
        None \<Rightarrow> frame
      | Some (minX, minY, maxX, maxY) \<Rightarrow>
          (let contentW = maxX - minX + 1;
               contentH = maxY - minY + 1;
               targetMinX = (W - contentW) div 2;
               targetMinY = (H - contentH) div 2;
               dx = targetMinX - minX;
               dy = targetMinY - minY
           in if dx = 0 \<and> dy = 0 then frame
              else fold (\<lambda>y. fold (centrarAt frame W H dx dy y) [0..W - 1]) [0..H - 1]
                     (makeFrame W H 0)))"

text \<open>The frame cut to the rectangle of size \<open>newW\<close> by \<open>newH\<close> at \<open>(minX, minY)\<close>.\<close>

definition cropFrame :: "int \<Rightarrow> int \<Rightarrow> int \<Rightarrow> int \<Rightarrow> int \<Rightarrow> Uint32Array \<Rightarrow> Uint32Array" where
  "cropFrame W minX minY newW newH fr =
     fold (\<lambda>y. fold (\<lambda>x out. wr out (y * newW + x) (stored (rd fr ((minY + y) * W + (minX + x)))))
             [0..newW - 1]) [0..newH - 1] (makeFrame newW newH 0)"

definition autocropTodos :: "real \<Rightarrow> bool \<Rightarrow> EditorStore \<Rightarrow> EditorStore" where
  "autocropTodos padding centrar s0 =
     (let W = w (state s0); H = h (state s0); fs = frames s0
      in case fold (scanFrame W H) fs None of
           None \<Rightarrow> s0\<lparr>uiAviso := Some NoHayPixeles\<rparr>
         | Some (minX0, minY0, maxX0, maxY0) \<Rightarrow>
             (let pad = max 0 \<lfloor>padding\<rfloor>;
                  minX = max 0 (minX0 - pad);
                  minY = max 0 (minY0 - pad);
                  maxX = min (W - 1) (maxX0 + pad);
                  maxY = min (H - 1) (maxY0 + pad);
                  newW = maxX - minX + 1;
                  newH = maxY - minY + 1;
                  s = pushUndo s0;
                  recortados = map (cropFrame W minX minY newW newH) fs;
                  centrados = (if centrar then map (\<lambda>fr. centrarFrame fr newW newH) recortados
                               else recortados);
                  s1 = s\<lparr>frames := centrados\<rparr>;
                  s2 = s1\<lparr>state := (state s1)\<lparr>w := newW, h := newH\<rparr>\<rparr>;
                  s3 = clearSelection s2
              in s3\<lparr>uiAviso := Some (AutocropListo centrar W H newW newH)\<rparr>))"

text \<open>The bounds a scan has found lie on the canvas, the minima not above the maxima.\<close>

definition inBox :: "int \<Rightarrow> int \<Rightarrow> (int \<times> int \<times> int \<times> int) option \<Rightarrow> bool" where
  "inBox W H b =
     (case b of
        None \<Rightarrow> True
      | Some (minX, minY, maxX, maxY) \<Rightarrow>
          0 \<le> minX \<and> minX \<le> maxX \<and> maxX < W \<and> 0 \<le> minY \<and> minY \<le> maxY \<and> maxY < H)"

section \<open>Properties\<close>

subsection \<open>Typed arrays, loops and indices\<close>

lemma length_wr: "length (wr fr i v) = length fr"
  by (simp add: wr_def)

lemma rd_wr:
  "rd (wr fr i v) j = (if j = i \<and> 0 \<le> i \<and> i < int (length fr) then Some v else rd fr j)"
  by (auto simp: rd_def wr_def nth_list_update nat_eq_iff)

lemma fold_product:
  "fold (\<lambda>y. fold (f y) xs) ys a = fold (\<lambda>(y, x). f y x) (List.product ys xs) a"
  by (induction ys arbitrary: a) (simp_all add: fold_map comp_def)

lemma fold_length:
  assumes "\<And>x a. x \<in> set xs \<Longrightarrow> length a = n \<Longrightarrow> length (f x a) = n" and "length a = n"
  shows "length (fold f xs a) = n"
  using assms by (induction xs arbitrary: a) simp_all

text \<open>A loop of stores none of which touches index \<open>j\<close> leaves it as it was.\<close>

lemma fold_rd_keep:
  assumes "\<And>x a. x \<in> set xs \<Longrightarrow> length a = n \<Longrightarrow>
             length (f x a) = n \<and> rd (f x a) j = rd a j"
    and "length a = n"
  shows "rd (fold f xs a) j = rd a j"
  using assms by (induction xs arbitrary: a) simp_all

text \<open>
  A loop in which one iteration stores \<open>v\<close> at index \<open>j\<close>, and every other one stores
  \<open>v\<close> there or nothing, ends with \<open>v\<close> at \<open>j\<close>.
\<close>

lemma fold_rd_hit:
  assumes step: "\<And>x a. x \<in> set xs \<Longrightarrow> length a = n \<Longrightarrow>
            length (f x a) = n \<and> (rd (f x a) j = Some v \<or> rd (f x a) j = rd a j)"
    and hit: "\<exists>x \<in> set xs. \<forall>a. length a = n \<longrightarrow> rd (f x a) j = Some v"
    and "length a = n"
  shows "rd (fold f xs a) j = Some v"
proof -
  have "length a = n \<Longrightarrow>
        rd a j = Some v \<or> (\<exists>x \<in> set xs. \<forall>a. length a = n \<longrightarrow> rd (f x a) j = Some v) \<Longrightarrow>
        (\<And>x a. x \<in> set xs \<Longrightarrow> length a = n \<Longrightarrow>
            length (f x a) = n \<and> (rd (f x a) j = Some v \<or> rd (f x a) j = rd a j)) \<Longrightarrow>
        rd (fold f xs a) j = Some v" for xs
  proof (induction xs arbitrary: a)
    case Nil
    then show ?case by simp
  next
    case (Cons x xs)
    have l: "length (f x a) = n" using Cons.prems(1,3) by simp
    have "rd (f x a) j = Some v \<or>
          (\<exists>x \<in> set xs. \<forall>a. length a = n \<longrightarrow> rd (f x a) j = Some v)"
      using Cons.prems by (metis list.set_intros(1) set_ConsD)
    then have "rd (fold f xs (f x a)) j = Some v"
      using Cons.IH [OF l] Cons.prems(3) by simp
    then show ?case by simp
  qed
  then show ?thesis using assms by blast
qed


subsection \<open>Undo history\<close>

lemma frames_clearSelection: "frames (clearSelection s) = frames s"
  by (simp add: clearSelection_def stopMoving_def)

lemma active_clearSelection: "active (clearSelection s) = active s"
  by (simp add: clearSelection_def stopMoving_def)

lemma undoStack_clearSelection: "undoStack (clearSelection s) = undoStack s"
  by (simp add: clearSelection_def stopMoving_def)

lemma state_clearSelection: "state (clearSelection s) = state s"
  by (simp add: clearSelection_def stopMoving_def)

lemma frames_pushUndo: "frames (pushUndo s) = frames s"
  by (simp add: pushUndo_def Let_def)

lemma active_pushUndo: "active (pushUndo s) = active s"
  by (simp add: pushUndo_def Let_def)

lemma state_pushUndo: "state (pushUndo s) = state s"
  by (simp add: pushUndo_def Let_def)

lemma undoStack_pushUndo:
  "undoStack (pushUndo s) =
     (let st = undoStack s @ [\<lparr>sframes = frames s, sactive = active s\<rparr>]
      in if length st > maxUndo then tl st else st)"
  by (simp add: pushUndo_def Let_def)

lemma pushUndo_nonempty: "undoStack (pushUndo s) \<noteq> []"
  by (cases "undoStack s") (simp_all add: undoStack_pushUndo Let_def maxUndo_def)

lemma last_pushUndo:
  "last (undoStack (pushUndo s)) = \<lparr>sframes = frames s, sactive = active s\<rparr>"
proof (cases "undoStack s")
  case Nil
  then show ?thesis by (simp add: undoStack_pushUndo maxUndo_def)
next
  case (Cons a st)
  then show ?thesis by (simp add: undoStack_pushUndo Let_def)
qed

lemma undo_nonempty:
  assumes "undoStack s \<noteq> []"
  shows "frames (undo s) = sframes (last (undoStack s))"
    and "active (undo s) =
           min (sactive (last (undoStack s))) (int (length (sframes (last (undoStack s)))) - 1)"
    and "undoStack (undo s) = butlast (undoStack s)"
    and "state (undo s) = state s"
  using assms
  by (cases "undoStack s";
      simp add: undo_def Let_def frames_clearSelection active_clearSelection
        undoStack_clearSelection state_clearSelection)+

lemma undoStack_addFrame: "undoStack (addFrame s) = undoStack (pushUndo s)"
  by (simp add: addFrame_def Let_def)

lemma undoStack_deleteFrame:
  "1 < length (frames s) \<Longrightarrow> undoStack (deleteFrame s) = undoStack (pushUndo s)"
  by (simp add: deleteFrame_def Let_def undoStack_clearSelection)

text \<open>
  C2. For a store whose active index is in range, \<^verbatim>\<open>undo\<close> after \<^verbatim>\<open>pushUndo\<close>
  gives back the frames and the active index of the time of the push, whatever has been
  done to the frames and the active index since (any store \<open>t\<close> with the history the push
  left), for instance by \<^verbatim>\<open>addFrame\<close> or \<^verbatim>\<open>deleteFrame\<close>, which push first; the
  history is then what it was before the push, less the snapshot the push dropped. A
  history of at most 60 snapshots has at most 60 after a push: a push onto a full history
  drops its oldest snapshot and keeps the rest in order, the new snapshot last, so the
  history is always the newest 60 snapshots pushed and not yet undone.
\<close>

theorem pushUndo_undo_roundtrip:
  assumes "0 \<le> active s" and "active s < int (length (frames s))"
    and "length (undoStack s) \<le> maxUndo"
  shows "(\<forall>t. undoStack t = undoStack (pushUndo s) \<longrightarrow>
            frames (undo t) = frames s \<and> active (undo t) = active s \<and>
            undoStack (undo t) = drop (length (undoStack s) + 1 - 60) (undoStack s)) \<and>
         frames (undo (addFrame s)) = frames s \<and>
         active (undo (addFrame s)) = active s \<and>
         (1 < length (frames s) \<longrightarrow>
            frames (undo (deleteFrame s)) = frames s \<and> active (undo (deleteFrame s)) = active s) \<and>
         frames (undo (pushUndo s)) = frames s \<and>
         active (undo (pushUndo s)) = active s \<and>
         length (undoStack (pushUndo s)) \<le> 60 \<and>
         length (undoStack (undo s)) \<le> 60 \<and>
         undoStack (pushUndo s) =
           drop (length (undoStack s) + 1 - 60)
             (undoStack s @ [\<lparr>sframes = frames s, sactive = active s\<rparr>]) \<and>
         (length (undoStack s) = 60 \<longrightarrow>
           undoStack (pushUndo s) =
             tl (undoStack s) @ [\<lparr>sframes = frames s, sactive = active s\<rparr>])"
proof -
  let ?snap = "\<lparr>sframes = frames s, sactive = active s\<rparr>"
  have 5: "undoStack (pushUndo s) = drop (length (undoStack s) + 1 - 60) (undoStack s @ [?snap])"
  proof (cases "length (undoStack s) = 60")
    case True
    then have "undoStack s \<noteq> []" by auto
    then show ?thesis
      using True by (simp add: undoStack_pushUndo Let_def maxUndo_def drop_Suc)
  next
    case False
    then show ?thesis
      using assms(3) by (simp add: undoStack_pushUndo Let_def maxUndo_def)
  qed
  have 0: "frames (undo t) = frames s \<and> active (undo t) = active s \<and>
      undoStack (undo t) = drop (length (undoStack s) + 1 - 60) (undoStack s)"
    if t: "undoStack t = undoStack (pushUndo s)" for t
  proof -
    have ne: "undoStack t \<noteq> []" unfolding t by (rule pushUndo_nonempty)
    have l: "last (undoStack t) = ?snap" unfolding t by (rule last_pushUndo)
    have "butlast (undoStack t) = drop (length (undoStack s) + 1 - 60) (undoStack s)"
      unfolding t 5 using assms(3) by (simp add: butlast_drop maxUndo_def)
    then show ?thesis
      using assms(2) by (simp add: undo_nonempty [OF ne] l)
  qed
  have a: "frames (undo (addFrame s)) = frames s \<and> active (undo (addFrame s)) = active s"
    using 0 [OF undoStack_addFrame] by simp
  have d: "frames (undo (deleteFrame s)) = frames s \<and> active (undo (deleteFrame s)) = active s"
    if "1 < length (frames s)"
    using 0 [OF undoStack_deleteFrame [OF that]] by simp
  have 1: "frames (undo (pushUndo s)) = frames s \<and> active (undo (pushUndo s)) = active s"
    using 0 [OF refl] by simp
  have 3: "length (undoStack (pushUndo s)) \<le> 60"
    using assms(3) by (simp add: undoStack_pushUndo Let_def maxUndo_def)
  have 4: "length (undoStack (undo s)) \<le> 60"
    using assms(3)
    by (cases "undoStack s")
      (simp_all add: undo_def Let_def undoStack_clearSelection maxUndo_def)
  have 6: "undoStack (pushUndo s) = tl (undoStack s) @ [?snap]" if "length (undoStack s) = 60"
  proof -
    from that have "undoStack s \<noteq> []" by auto
    then show ?thesis
      using that by (simp add: undoStack_pushUndo Let_def maxUndo_def)
  qed
  show ?thesis using 0 a d 1 3 4 5 6 by blast
qed

theorem pushUndo_undo_roundtrip_witness:
  "0 \<le> active paintedHistoryStore \<and>
   active paintedHistoryStore < int (length (frames paintedHistoryStore)) \<and>
   length (undoStack paintedHistoryStore) = 60 \<and>
   sframes (last (undoStack paintedHistoryStore)) \<noteq> frames paintedHistoryStore \<and>
   frames (addFrame paintedHistoryStore) \<noteq> frames paintedHistoryStore \<and>
   active (addFrame paintedHistoryStore) \<noteq> active paintedHistoryStore \<and>
   frames (undo (addFrame paintedHistoryStore)) = [(makeFrame 32 32 0)[0 := 0xff000000]] \<and>
   active (undo (addFrame paintedHistoryStore)) = 0 \<and>
   undoStack (undo (addFrame paintedHistoryStore)) = tl (undoStack paintedHistoryStore) \<and>
   length (undoStack (pushUndo paintedHistoryStore)) \<le> 60 \<and>
   undoStack (pushUndo paintedHistoryStore) =
     tl (undoStack paintedHistoryStore) @
       [\<lparr>sframes = frames paintedHistoryStore, sactive = active paintedHistoryStore\<rparr>]"
proof -
  let ?s = paintedHistoryStore
  have f: "frames ?s = [(makeFrame 32 32 0)[0 := 0xff000000]]" "active ?s = 0"
    "undoStack ?s = replicate 60 \<lparr>sframes = [makeFrame 32 32 0], sactive = 0\<rparr>"
    by (simp_all add: paintedHistoryStore_def fullHistoryStore_def initialStore_def)
  have h: "0 \<le> active ?s" "active ?s < int (length (frames ?s))"
    "length (undoStack ?s) \<le> maxUndo"
    and l: "length (undoStack ?s) = 60"
    by (simp_all add: f maxUndo_def)
  have ne: "(makeFrame 32 32 0)[0 := 0xff000000] \<noteq> makeFrame 32 32 (0 :: pixel)"
  proof
    assume "(makeFrame 32 32 0)[0 := 0xff000000] = makeFrame 32 32 (0 :: pixel)"
    then have "(makeFrame 32 32 0)[0 := 0xff000000] ! 0 = makeFrame 32 32 (0 :: pixel) ! 0" by simp
    then show False by (simp add: makeFrame_def)
  qed
  have old: "sframes (last (undoStack ?s)) \<noteq> frames ?s"
    using ne by (simp add: f)
  have ch: "frames (addFrame ?s) \<noteq> frames ?s" "active (addFrame ?s) \<noteq> active ?s"
    by (simp_all add: addFrame_def Let_def frames_pushUndo f)
  note R = pushUndo_undo_roundtrip [OF h]
  have u: "frames (undo (addFrame ?s)) = frames ?s" "active (undo (addFrame ?s)) = active ?s"
    using R by blast+
  have k: "undoStack (undo (addFrame ?s)) = drop (length (undoStack ?s) + 1 - 60) (undoStack ?s)"
    using R undoStack_addFrame [of ?s] by blast
  have k': "undoStack (undo (addFrame ?s)) = tl (undoStack ?s)"
    unfolding k l by (simp add: drop_Suc)
  have p: "length (undoStack (pushUndo ?s)) \<le> 60"
    "undoStack (pushUndo ?s) = tl (undoStack ?s) @ [\<lparr>sframes = frames ?s, sactive = active ?s\<rparr>]"
    using R l by blast+
  show ?thesis
    using h(1,2) l old ch u k' p unfolding f(1,2) by (intro conjI) simp_all
qed

subsection \<open>The brush stamp\<close>

lemma idx_bounds:
  fixes W H px py :: int
  assumes "0 \<le> px" "px < W" "0 \<le> py" "py < H"
  shows "0 \<le> py * W + px" and "py * W + px < W * H"
proof -
  show "0 \<le> py * W + px" using assms by simp
  have "py * W \<le> (H - 1) * W" using assms by (intro mult_right_mono) auto
  then show "py * W + px < W * H" using assms by (simp add: algebra_simps)
qed

lemma idx_inj:
  fixes W px py qx qy :: int
  assumes "0 \<le> px" "px < W" "0 \<le> qx" "qx < W" "py * W + px = qy * W + qx"
  shows "px = qx \<and> py = qy"
proof -
  have "(py * W + px) mod W = (qy * W + qx) mod W" using assms(5) by (rule arg_cong)
  then have x: "px = qx" using assms(1-4) by simp
  have "W \<noteq> 0" using assms by auto
  then show ?thesis using assms(5) x by simp
qed

lemma idx_div_mod:
  fixes W px py :: int
  assumes "0 \<le> px" "px < W"
  shows "(py * W + px) div W = py" and "(py * W + px) mod W = px"
  using assms by simp_all

lemma stampAt_length: "length (stampAt st x y c oy ox a) = length a"
  by (simp add: stampAt_def Let_def length_wr)

lemma stampAt_rd:
  assumes "int (length a) = w st * h st" "0 \<le> px" "px < w st" "0 \<le> py" "py < h st"
  shows "rd (stampAt st x y c oy ox a) (py * w st + px) =
           (if x + ox = px \<and> y + oy = py then Some (toUint32 c) else rd a (py * w st + px))"
proof (cases "x + ox < 0 \<or> y + oy < 0 \<or> x + ox \<ge> w st \<or> y + oy \<ge> h st")
  case True
  then show ?thesis using assms by (auto simp: stampAt_def Let_def)
next
  case False
  then have b: "0 \<le> x + ox" "x + ox < w st" "0 \<le> y + oy" "y + oy < h st" by auto
  have r: "0 \<le> (y + oy) * w st + (x + ox)" "(y + oy) * w st + (x + ox) < int (length a)"
    using idx_bounds [OF b] assms(1) by auto
  show ?thesis
    using False r idx_inj [OF assms(2,3) b(1,2), of py "y + oy"]
    by (auto simp: stampAt_def Let_def rd_wr)
qed

lemma stamp_loops_rd:
  assumes len: "int (length a) = w st * h st" and b: "0 \<le> px" "px < w st" "0 \<le> py" "py < h st"
  shows "rd (fold (\<lambda>oy. fold (stampAt st x y c oy) [- r..r]) [- r..r] a) (py * w st + px) =
           (if (px, py) \<in> stampSquare r x y (w st) (h st) then Some (toUint32 c)
            else rd a (py * w st + px))"
proof -
  let ?f = "\<lambda>(oy, ox). stampAt st x y c oy ox"
  let ?xs = "List.product [- r..r] [- r..r]"
  let ?j = "py * w st + px"
  have step: "length (?f p a') = length a \<and>
      rd (?f p a') ?j = (if x + snd p = px \<and> y + fst p = py then Some (toUint32 c) else rd a' ?j)"
    if "length a' = length a" for p a'
    using that stampAt_rd [OF _ b, of a' x y c "fst p" "snd p"] len
    by (cases p) (simp add: stampAt_length)
  show ?thesis
  proof (cases "(px, py) \<in> stampSquare r x y (w st) (h st)")
    case True
    then have m: "(py - y, px - x) \<in> set ?xs" by (auto simp: stampSquare_def)
    have "rd (fold ?f ?xs a) ?j = Some (toUint32 c)"
    proof (rule fold_rd_hit [where n = "length a"])
      show "\<exists>p \<in> set ?xs. \<forall>a'. length a' = length a \<longrightarrow> rd (?f p a') ?j = Some (toUint32 c)"
        using m step by (intro bexI [of _ "(py - y, px - x)"]) auto
    qed (use step in auto)
    then show ?thesis using True by (simp add: fold_product)
  next
    case False
    have "rd (fold ?f ?xs a) ?j = rd a ?j"
    proof (rule fold_rd_keep [where n = "length a"])
      fix p and a' :: Uint32Array assume p: "p \<in> set ?xs" and l: "length a' = length a"
      have "\<not> (x + snd p = px \<and> y + fst p = py)"
        using False p b by (auto simp: stampSquare_def)
      then show "length (?f p a') = length a \<and> rd (?f p a') ?j = rd a' ?j"
        using step [OF l, of p] by auto
    qed simp
    then show ?thesis using False by (simp add: fold_product)
  qed
qed

lemma stamp_loops_length:
  "length (fold (\<lambda>oy. fold (stampAt st x y c oy) [- r..r]) [- r..r] a) = length a"
  by (simp add: fold_product, rule fold_length [where n = "length a"]) (auto simp: stampAt_length)


lemma frame_eqI:
  fixes a b :: Uint32Array
  assumes Wpos: "0 < W" and la: "int (length a) = W * H" and lb: "int (length b) = W * H"
    and eq: "\<And>px py. 0 \<le> px \<Longrightarrow> px < W \<Longrightarrow> 0 \<le> py \<Longrightarrow> py < H \<Longrightarrow>
               rd a (py * W + px) = rd b (py * W + px)"
  shows "a = b"
proof (rule nth_equalityI)
  show "length a = length b" using la lb by simp
next
  fix i assume i: "i < length a"
  then have iWH: "int i < W * H" using la by simp
  let ?px = "int i mod W" and ?py = "int i div W"
  have px: "0 \<le> ?px" "?px < W" using Wpos by simp_all
  have py0: "0 \<le> ?py" using Wpos by (simp add: pos_imp_zdiv_nonneg_iff)
  have "?py < H"
  proof (rule ccontr)
    assume "\<not> ?py < H"
    then have "H \<le> ?py" by simp
    then have "H * W \<le> ?py * W" using Wpos by (intro mult_right_mono) auto
    also have "\<dots> = int i - ?px" by (simp add: minus_mod_eq_div_mult [symmetric])
    also have "\<dots> \<le> int i" using px by simp
    finally show False using iWH by (simp add: mult.commute)
  qed
  then have "rd a (?py * W + ?px) = rd b (?py * W + ?px)" using eq px py0 by blast
  then have "rd a (int i) = rd b (int i)" by simp
  then show "a ! i = b ! i" using i la lb by (simp add: rd_def)
qed

lemma frames_pushRecentColorUsado: "frames (pushRecentColorUsado c s) = frames s"
  and active_pushRecentColorUsado: "active (pushRecentColorUsado c s) = active s"
  and state_pushRecentColorUsado: "state (pushRecentColorUsado c s) = state s"
  by (simp_all add: pushRecentColorUsado_def)

lemma activeFrame_Some:
  "activeFrame s = Some fr \<longleftrightarrow> activeOk s \<and> frames s ! nat (active s) = fr"
  by (auto simp: activeFrame_def activeOk_def)

lemma frames_replaceActiveFrame:
  "activeOk s \<Longrightarrow> frames (replaceActiveFrame out s) = (frames s)[nat (active s) := out]"
  and active_replaceActiveFrame: "active (replaceActiveFrame out s) = active s"
  and state_replaceActiveFrame: "state (replaceActiveFrame out s) = state s"
  by (simp_all add: replaceActiveFrame_def activeOk_def Let_def)

lemma activeFrame_replaceActiveFrame:
  "activeOk s \<Longrightarrow> activeFrame (replaceActiveFrame out s) = Some out"
  by (simp add: activeFrame_def replaceActiveFrame_def activeOk_def Let_def nat_less_iff)

lemma frames_stamp:
  assumes "activeFrame s = Some old"
  shows "frames (stamp x y c s) =
     (frames s)[nat (active s) :=
        fold (\<lambda>oy. fold (stampAt (state s) x y c oy) [- brushRadius (state s)..brushRadius (state s)])
          [- brushRadius (state s)..brushRadius (state s)] old]"
    and "active (stamp x y c s) = active s" and "state (stamp x y c s) = state s"
proof -
  have aok: "activeOk s" using assms by (simp add: activeFrame_Some)
  show "frames (stamp x y c s) =
     (frames s)[nat (active s) :=
        fold (\<lambda>oy. fold (stampAt (state s) x y c oy) [- brushRadius (state s)..brushRadius (state s)])
          [- brushRadius (state s)..brushRadius (state s)] old]"
    by (simp add: stamp_def Let_def frames_pushRecentColorUsado
        frames_replaceActiveFrame [OF aok] assms newUint32Array_def)
  show "active (stamp x y c s) = active s"
    by (simp add: stamp_def Let_def active_pushRecentColorUsado active_replaceActiveFrame)
  show "state (stamp x y c s) = state s"
    by (simp add: stamp_def Let_def state_pushRecentColorUsado state_replaceActiveFrame)
qed

lemma finite_stampSquare: "finite (stampSquare r x y W H)"
proof (rule finite_subset)
  show "stampSquare r x y W H \<subseteq> {x - r..x + r} \<times> {y - r..y + r}"
    by (auto simp: stampSquare_def)
qed simp

lemma card_stampSquare: "card (stampSquare r x y W H) \<le> nat (2 * r + 1) * nat (2 * r + 1)"
proof -
  have "card (stampSquare r x y W H) \<le> card ({x - r..x + r} \<times> {y - r..y + r})"
    by (rule card_mono) (auto simp: stampSquare_def)
  also have "\<dots> = nat (2 * r + 1) * nat (2 * r + 1)"
    by (simp add: card_cartesian_product algebra_simps)
  finally show ?thesis .
qed

lemma stampSquare_0:
  "0 \<le> x \<Longrightarrow> x < W \<Longrightarrow> 0 \<le> y \<Longrightarrow> y < H \<Longrightarrow> stampSquare 0 x y W H = {(x, y)}"
  by (auto simp: stampSquare_def)

text \<open>
  C7. On a store whose frames have the configured size, \<^verbatim>\<open>stamp\<close> replaces the active
  frame by one of the same length in which every pixel of the square of side \<open>2r + 1\<close>
  centred at \<open>(x, y)\<close> and clipped to the canvas holds the colour (reduced to 32 bits), and
  every other pixel is as before; the other frames are untouched. With radius 0 and
  \<open>(x, y)\<close> on the canvas exactly the pixel \<open>(x, y)\<close> is written, and the square has at most
  \<open>(2r + 1)\<^sup>2\<close> pixels, so at most 9 with radius 1.
\<close>

theorem stamp_square:
  assumes ok: "framesOk s" and old: "activeFrame s = Some old" and Wpos: "0 < w (state s)"
  shows "\<exists>out. activeFrame (stamp x y c s) = Some out \<and> length out = length old \<and>
           (\<forall>px py. 0 \<le> px \<and> px < w (state s) \<and> 0 \<le> py \<and> py < h (state s) \<longrightarrow>
              rd out (py * w (state s) + px) =
                (if (px, py) \<in> stampSquare (brushRadius (state s)) x y (w (state s)) (h (state s))
                 then Some (toUint32 c) else rd old (py * w (state s) + px))) \<and>
           frames (stamp x y c s) = (frames s)[nat (active s) := out] \<and>
           (brushRadius (state s) = 0 \<and> 0 \<le> x \<and> x < w (state s) \<and> 0 \<le> y \<and> y < h (state s) \<longrightarrow>
              out = old[nat (y * w (state s) + x) := toUint32 c]) \<and>
           card (stampSquare (brushRadius (state s)) x y (w (state s)) (h (state s)))
             \<le> nat (2 * brushRadius (state s) + 1) * nat (2 * brushRadius (state s) + 1) \<and>
           (brushRadius (state s) = 1 \<longrightarrow>
              card (stampSquare (brushRadius (state s)) x y (w (state s)) (h (state s))) \<le> 9)"
proof -
  let ?st = "state s"
  let ?r = "brushRadius ?st"
  let ?out = "fold (\<lambda>oy. fold (stampAt ?st x y c oy) [- ?r..?r]) [- ?r..?r] old"
  have aok: "activeOk s" and oldfr: "frames s ! nat (active s) = old"
    using old by (simp_all add: activeFrame_Some)
  then have "old \<in> set (frames s)" by (auto simp: activeOk_def)
  then have len: "int (length old) = w ?st * h ?st" using ok by (simp add: framesOk_def)
  have fr: "frames (stamp x y c s) = (frames s)[nat (active s) := ?out]"
    by (rule frames_stamp(1) [OF old])
  have 1: "activeFrame (stamp x y c s) = Some ?out"
    using aok by (simp add: activeFrame_def activeOk_def fr frames_stamp(2) [OF old] nat_less_iff)
  have 2: "length ?out = length old" by (rule stamp_loops_length)
  have 3: "rd ?out (py * w ?st + px) =
             (if (px, py) \<in> stampSquare ?r x y (w ?st) (h ?st) then Some (toUint32 c)
              else rd old (py * w ?st + px))"
    if "0 \<le> px" "px < w ?st" "0 \<le> py" "py < h ?st" for px py
    by (rule stamp_loops_rd [OF len that])
  have 4: "?out = old[nat (y * w ?st + x) := toUint32 c]"
    if r0: "?r = 0" and b: "0 \<le> x" "x < w ?st" "0 \<le> y" "y < h ?st"
  proof (rule frame_eqI [where W = "w ?st" and H = "h ?st", OF Wpos])
    show "int (length ?out) = w ?st * h ?st" using 2 len by simp
    show "int (length (old[nat (y * w ?st + x) := toUint32 c])) = w ?st * h ?st" using len by simp
    fix px py assume p: "0 \<le> px" "px < w ?st" "0 \<le> py" "py < h ?st"
    have "rd (old[nat (y * w ?st + x) := toUint32 c]) (py * w ?st + px) =
          rd (wr old (y * w ?st + x) (toUint32 c)) (py * w ?st + px)"
      using idx_bounds [OF b] len by (simp add: wr_def)
    also have "\<dots> = (if px = x \<and> py = y then Some (toUint32 c) else rd old (py * w ?st + px))"
      using idx_bounds [OF b] len idx_inj [OF p(1,2) b(1,2), of py y] by (auto simp: rd_wr)
    finally show "rd ?out (py * w ?st + px) =
        rd (old[nat (y * w ?st + x) := toUint32 c]) (py * w ?st + px)"
      using 3 [OF p] r0 b by (simp add: stampSquare_0)
  qed
  have 5: "card (stampSquare ?r x y (w ?st) (h ?st)) \<le> 9" if "?r = 1"
    using card_stampSquare [of ?r x y "w ?st" "h ?st"] that by simp
  show ?thesis
    apply (rule exI [of _ ?out])
    apply (intro conjI allI impI)
    subgoal by (rule 1)
    subgoal by (rule 2)
    subgoal by (rule 3) auto
    subgoal by (rule fr)
    subgoal by (rule 4) auto
    subgoal by (rule card_stampSquare)
    subgoal by (rule 5)
    done
qed


lemma initialStore_ok:
  "framesOk initialStore" "activeFrame initialStore = Some (makeFrame 32 32 0)"
  "state initialStore = initialState" "w initialState = 32" "h initialState = 32"
  by (simp_all add: framesOk_def initialStore_def initialState_def makeFrame_def activeFrame_def)

theorem stamp_square_witness:
  "framesOk (setBrushRadius 1 initialStore) \<and>
   activeFrame (setBrushRadius 1 initialStore) = Some (makeFrame 32 32 0) \<and>
   (\<exists>out. activeFrame (stamp 0 0 (- 65536) (setBrushRadius 1 initialStore)) = Some out \<and>
      rd out 33 = Some 0xFFFF0000 \<and> rd out 2 = Some 0 \<and> length out = 1024)"
proof -
  let ?s = "setBrushRadius 1 initialStore"
  have st: "state ?s = initialState\<lparr>brushRadius := 1\<rparr>" "frames ?s = frames initialStore"
    "active ?s = active initialStore"
    by (simp_all add: setBrushRadius_def initialStore_def)
  have ok: "framesOk ?s"
    using initialStore_ok(1) by (simp add: framesOk_def st initialStore_ok)
  have old: "activeFrame ?s = Some (makeFrame 32 32 0)"
    by (simp add: activeFrame_def setBrushRadius_def initialStore_def)
  have W: "0 < w (state ?s)" by (simp add: st initialState_def)
  from stamp_square [OF ok old W, of 0 0 "- 65536"]
  obtain out where o: "activeFrame (stamp 0 0 (- 65536) ?s) = Some out"
    "length out = length (makeFrame 32 32 0)"
    "\<And>px py. 0 \<le> px \<and> px < w (state ?s) \<and> 0 \<le> py \<and> py < h (state ?s) \<Longrightarrow>
              rd out (py * w (state ?s) + px) =
                (if (px, py) \<in> stampSquare (brushRadius (state ?s)) 0 0 (w (state ?s)) (h (state ?s))
                 then Some (toUint32 (- 65536)) else rd (makeFrame 32 32 0) (py * w (state ?s) + px))"
    by blast
  have "rd out 33 = Some 0xFFFF0000"
    using o(3) [of 1 1] by (simp add: st initialState_def stampSquare_def toUint32_def)
  moreover have "rd out 2 = Some 0"
    using o(3) [of 2 0] by (simp add: st initialState_def stampSquare_def makeFrame_def rd_def)
  moreover have "length out = 1024" using o(2) by (simp add: makeFrame_def)
  ultimately show ?thesis using ok old o(1) by blast
qed

subsection \<open>Deleting a frame\<close>

lemma slice_take: "0 \<le> i \<Longrightarrow> i \<le> int (length xs) \<Longrightarrow> slice xs 0 i = take (nat i) xs"
  by (simp add: slice_def Let_def)

lemma slice_drop:
  "0 \<le> i \<Longrightarrow> i \<le> int (length xs) \<Longrightarrow> slice xs i (int (length xs)) = drop (nat i) xs"
  by (simp add: slice_def Let_def)

lemma deleteFrame_many:
  assumes "1 < length (frames s)"
  shows "frames (deleteFrame s) =
           slice (frames s) 0 (active s) @ slice (frames s) (active s + 1) (int (length (frames s)))"
    and "active (deleteFrame s) = max 0 (active s - 1)"
    and "undoStack (deleteFrame s) = undoStack (pushUndo s)"
    and "selectionMask (deleteFrame s) = None"
  using assms
  by (simp_all add: deleteFrame_def Let_def frames_clearSelection active_clearSelection
      undoStack_clearSelection active_pushUndo clearSelection_def stopMoving_def)

text \<open>
  C9. On a store with at least one frame and the active index in range, \<^verbatim>\<open>deleteFrame\<close>
  changes nothing at all when exactly one frame is left; otherwise it removes the active
  frame and sets the active index to \<open>max 0 (active - 1)\<close>. Either way there is still at
  least one frame afterwards and the active index is in range.
\<close>

theorem deleteFrame_spec:
  assumes "frames s \<noteq> []" and "activeOk s"
  shows "(length (frames s) = 1 \<longrightarrow> deleteFrame s = s) \<and>
         (1 < length (frames s) \<longrightarrow>
            frames (deleteFrame s) =
              take (nat (active s)) (frames s) @ drop (nat (active s) + 1) (frames s) \<and>
            length (frames (deleteFrame s)) = length (frames s) - 1 \<and>
            active (deleteFrame s) = max 0 (active s - 1)) \<and>
         1 \<le> length (frames (deleteFrame s)) \<and>
         0 \<le> active (deleteFrame s) \<and>
         active (deleteFrame s) < int (length (frames (deleteFrame s)))"
proof (cases "length (frames s) = 1")
  case True
  then have "deleteFrame s = s" by (simp add: deleteFrame_def)
  then show ?thesis using True assms(2) by (simp add: activeOk_def)
next
  case False
  then have many: "1 < length (frames s)" using assms(1) by (cases "frames s") auto
  have a: "0 \<le> active s" "active s < int (length (frames s))"
    using assms(2) by (simp_all add: activeOk_def)
  have fr: "frames (deleteFrame s) =
      take (nat (active s)) (frames s) @ drop (nat (active s) + 1) (frames s)"
    using a by (simp add: deleteFrame_many(1) [OF many] slice_take slice_drop nat_add_distrib)
  have len: "length (frames (deleteFrame s)) = length (frames s) - 1"
    using a by (simp add: fr)
  have act: "active (deleteFrame s) = max 0 (active s - 1)"
    by (rule deleteFrame_many(2) [OF many])
  show ?thesis using many fr len act a by auto
qed

theorem deleteFrame_spec_witness:
  "frames (addFrame initialStore) \<noteq> [] \<and> activeOk (addFrame initialStore) \<and>
   length (frames (addFrame initialStore)) = 2 \<and> active (addFrame initialStore) = 1 \<and>
   frames (deleteFrame (addFrame initialStore)) = [makeFrame 32 32 0] \<and>
   active (deleteFrame (addFrame initialStore)) = 0 \<and>
   deleteFrame (deleteFrame (addFrame initialStore)) = deleteFrame (addFrame initialStore)"
proof -
  let ?s = "addFrame initialStore"
  have f: "frames ?s = [makeFrame 32 32 0, makeFrame 32 32 0]" and a: "active ?s = 1"
    by (simp_all add: addFrame_def Let_def frames_pushUndo state_pushUndo initialStore_def
        initialState_def)
  have h: "frames ?s \<noteq> []" "activeOk ?s" by (simp_all add: f a activeOk_def)
  have d: "frames (deleteFrame ?s) = [makeFrame 32 32 0]" "active (deleteFrame ?s) = 0"
    using deleteFrame_spec [OF h] by (simp_all add: f a)
  then have h2: "frames (deleteFrame ?s) \<noteq> []" "activeOk (deleteFrame ?s)"
    by (simp_all add: activeOk_def)
  have "deleteFrame (deleteFrame ?s) = deleteFrame ?s"
    using deleteFrame_spec [OF h2] by (simp add: d)
  then show ?thesis using h f a d by simp
qed

subsection \<open>The brush radius\<close>

lemma brushRadius_setBrushRadius:
  "brushRadius (state (setBrushRadius r s)) = max 0 (min 20 \<lfloor>r\<rfloor>)"
  by (simp add: setBrushRadius_def)

text \<open>
  C10. \<^verbatim>\<open>setBrushRadius\<close> stores \<open>\<lfloor>r\<rfloor>\<close> clamped into \<open>[0, 20]\<close> for every real
  \<open>r\<close>; \<^verbatim>\<open>incBrushRadius\<close> and \<^verbatim>\<open>decBrushRadius\<close> go through the same clamp, and
  the store starts with radius 0. So the loops of a stamp run over at most 41 offsets per
  axis and the stamped square lies within 20 pixels of its centre.
\<close>

theorem brushRadius_clamped:
  "brushRadius (state (setBrushRadius r s)) = max 0 (min 20 \<lfloor>r\<rfloor>) \<and>
   0 \<le> brushRadius (state (setBrushRadius r s)) \<and>
   brushRadius (state (setBrushRadius r s)) \<le> 20 \<and>
   brushRadius (state (incBrushRadius s)) = max 0 (min 20 (brushRadius (state s) + 1)) \<and>
   brushRadius (state (decBrushRadius s)) = max 0 (min 20 (brushRadius (state s) - 1)) \<and>
   brushRadius (state initialStore) = 0 \<and>
   2 * brushRadius (state (setBrushRadius r s)) + 1 \<le> 41 \<and>
   length [- brushRadius (state (setBrushRadius r s))..brushRadius (state (setBrushRadius r s))] \<le> 41 \<and>
   stampSquare (brushRadius (state (setBrushRadius r s))) x y W H
     \<subseteq> {x - 20..x + 20} \<times> {y - 20..y + 20} \<and>
   card (stampSquare (brushRadius (state (setBrushRadius r s))) x y W H) \<le> 41 * 41"
proof -
  let ?r = "brushRadius (state (setBrushRadius r s))"
  have r: "?r = max 0 (min 20 \<lfloor>r\<rfloor>)" by (rule brushRadius_setBrushRadius)
  then have b: "0 \<le> ?r" "?r \<le> 20" by simp_all
  have i: "brushRadius (state (incBrushRadius s)) = max 0 (min 20 (brushRadius (state s) + 1))"
    unfolding incBrushRadius_def brushRadius_setBrushRadius by simp
  have d: "brushRadius (state (decBrushRadius s)) = max 0 (min 20 (brushRadius (state s) - 1))"
    unfolding decBrushRadius_def brushRadius_setBrushRadius by simp
  have z: "brushRadius (state initialStore) = 0" by (simp add: initialStore_def initialState_def)
  have l: "length [- ?r..?r] \<le> 41" using b by simp
  have sub: "stampSquare ?r x y W H \<subseteq> {x - 20..x + 20} \<times> {y - 20..y + 20}"
    using b by (auto simp: stampSquare_def)
  have "card (stampSquare ?r x y W H) \<le> nat (2 * ?r + 1) * nat (2 * ?r + 1)"
    by (rule card_stampSquare)
  also have "\<dots> \<le> 41 * 41" using b by (intro mult_mono) auto
  finally have c: "card (stampSquare ?r x y W H) \<le> 41 * 41" .
  show ?thesis using r b i d z l sub c by simp
qed

subsection \<open>Resizing the canvas\<close>


lemma length_makeFrame: "0 \<le> W * H \<Longrightarrow> int (length (makeFrame W H v)) = W * H"
  by (simp add: makeFrame_def)


lemma resizeAt_length: "length (resizeAt fr oldW W H offX offY y x a) = length a"
  by (simp add: resizeAt_def Let_def length_wr)



lemma resizeFrame_length:
  "0 \<le> W * H \<Longrightarrow> int (length (resizeFrame oldW oldH W H fr)) = W * H"
proof -
  assume a: "0 \<le> W * H"
  have "length (resizeFrame oldW oldH W H fr) = length (makeFrame W H 0)"
    unfolding resizeFrame_def Let_def fold_product
    by (rule fold_length) (auto simp: resizeAt_length)
  then show ?thesis using a by (simp add: length_makeFrame)
qed


lemma alpha_0: "alpha 0 = 0"
  by (simp add: alpha_def)

lemma setCanvasSize_same:
  assumes "max 8 (min 512 \<lfloor>newW\<rfloor>) = w (state s)" "max 8 (min 512 \<lfloor>newH\<rfloor>) = h (state s)"
  shows "setCanvasSize newW newH s = s"
  using assms by (simp add: setCanvasSize_def Let_def)

lemma setCanvasSize_changed:
  assumes "max 8 (min 512 \<lfloor>newW\<rfloor>) \<noteq> w (state s) \<or> max 8 (min 512 \<lfloor>newH\<rfloor>) \<noteq> h (state s)"
  shows "frames (setCanvasSize newW newH s) =
           map (resizeFrame (w (state s)) (h (state s))
                  (max 8 (min 512 \<lfloor>newW\<rfloor>)) (max 8 (min 512 \<lfloor>newH\<rfloor>))) (frames s)"
    and "w (state (setCanvasSize newW newH s)) = max 8 (min 512 \<lfloor>newW\<rfloor>)"
    and "h (state (setCanvasSize newW newH s)) = max 8 (min 512 \<lfloor>newH\<rfloor>)"
    and "active (setCanvasSize newW newH s) = active s"
    and "undoStack (setCanvasSize newW newH s) = undoStack (pushUndo s)"
    and "selectionMask (setCanvasSize newW newH s) = None"
  using assms
  by (auto simp: setCanvasSize_def Let_def frames_pushUndo state_pushUndo active_pushUndo
      clearSelection_def stopMoving_def)

lemma clamp_id: "8 \<le> W \<Longrightarrow> W \<le> 512 \<Longrightarrow> max 8 (min 512 \<lfloor>real_of_int W\<rfloor>) = W"
  by simp








subsection \<open>Lasso selection\<close>

lemma pipLoop_parity:
  "pipLoop x y ps vj b =
     (b \<noteq> odd (length (filter (\<lambda>(vi, vj). intersect x y vi vj) (zip ps (vj # butlast ps)))))"
proof (induction ps arbitrary: vj b)
  case Nil
  then show ?case by simp
next
  case (Cons p ps)
  show ?case
  proof (cases ps)
    case Nil
    then show ?thesis by auto
  next
    case (Cons q qs)
    then have "zip (p # ps) (vj # butlast (p # ps)) = (p, vj) # zip ps (p # butlast ps)"
      by simp
    then show ?thesis by (auto simp: Cons.IH)
  qed
qed

lemma pointInPolygon_parity: "pointInPolygon x y poly = insidePolygon x y poly"
  by (cases poly) (simp_all add: pointInPolygon_def insidePolygon_def polygonEdges_def pipLoop_parity
      del: pipLoop.simps)

lemma set_setAdd: "set (setAdd v m) = insert v (set m)"
  by (auto simp: setAdd_def)

lemma distinct_setAdd: "distinct m \<Longrightarrow> distinct (setAdd v m)"
  by (simp add: setAdd_def)

lemma fold_setAdd:
  "set (fold (\<lambda>x m. if P x then setAdd (g x) m else m) xs m0) = set m0 \<union> g ` {x \<in> set xs. P x}"
  "distinct m0 \<Longrightarrow> distinct (fold (\<lambda>x m. if P x then setAdd (g x) m else m) xs m0)"
  by (induction xs arbitrary: m0) (auto simp: set_setAdd distinct_setAdd)

lemma lasso_loops:
  "set (fold (\<lambda>y. fold (lassoAt st path y) [0..W - 1]) [0..H - 1] []) =
     {y * w st + x | x y. 0 \<le> x \<and> x < W \<and> 0 \<le> y \<and> y < H \<and> insidePolygon x y path}"
  "distinct (fold (\<lambda>y. fold (lassoAt st path y) [0..W - 1]) [0..H - 1] [])"
proof -
  have e: "(\<lambda>(y, x). lassoAt st path y x) =
      (\<lambda>p m. if insidePolygon (snd p) (fst p) path then setAdd (fst p * w st + snd p) m else m)"
    by (auto simp: lassoAt_def pointInPolygon_parity fun_eq_iff)
  show "set (fold (\<lambda>y. fold (lassoAt st path y) [0..W - 1]) [0..H - 1] []) =
     {y * w st + x | x y. 0 \<le> x \<and> x < W \<and> 0 \<le> y \<and> y < H \<and> insidePolygon x y path}"
    unfolding fold_product e fold_setAdd(1)
  proof (intro set_eqI iffI)
    fix v
    assume "v \<in> set [] \<union> (\<lambda>p. fst p * w st + snd p) `
      {p \<in> set (List.product [0..H - 1] [0..W - 1]). insidePolygon (snd p) (fst p) path}"
    then obtain p where "p \<in> set (List.product [0..H - 1] [0..W - 1])"
      "insidePolygon (snd p) (fst p) path" "v = fst p * w st + snd p"
      by auto
    then have "v = fst p * w st + snd p \<and> 0 \<le> snd p \<and> snd p < W \<and> 0 \<le> fst p \<and> fst p < H \<and>
        insidePolygon (snd p) (fst p) path"
      by (auto simp: mem_Times_iff)
    then show "v \<in> {y * w st + x | x y. 0 \<le> x \<and> x < W \<and> 0 \<le> y \<and> y < H \<and> insidePolygon x y path}"
      by blast
  next
    fix v
    assume "v \<in> {y * w st + x | x y. 0 \<le> x \<and> x < W \<and> 0 \<le> y \<and> y < H \<and> insidePolygon x y path}"
    then obtain x y where xy: "v = y * w st + x" "0 \<le> x" "x < W" "0 \<le> y" "y < H"
      "insidePolygon x y path"
      by blast
    then have "(y, x) \<in> {p \<in> set (List.product [0..H - 1] [0..W - 1]).
        insidePolygon (snd p) (fst p) path}"
      by simp
    then have "(\<lambda>p. fst p * w st + snd p) (y, x) \<in> (\<lambda>p. fst p * w st + snd p) `
      {p \<in> set (List.product [0..H - 1] [0..W - 1]). insidePolygon (snd p) (fst p) path}"
      by (rule imageI)
    then show "v \<in> set [] \<union> (\<lambda>p. fst p * w st + snd p) `
      {p \<in> set (List.product [0..H - 1] [0..W - 1]). insidePolygon (snd p) (fst p) path}"
      using xy(1) by simp
  qed
  show "distinct (fold (\<lambda>y. fold (lassoAt st path y) [0..W - 1]) [0..H - 1] [])"
    unfolding fold_product e by (rule fold_setAdd(2)) simp
qed


lemma finishLasso_short:
  "selectionPath s = None \<Longrightarrow> finishLasso s = clearSelection s"
  "selectionPath s = Some path \<Longrightarrow> length path < 3 \<Longrightarrow> finishLasso s = clearSelection s"
  by (simp_all add: finishLasso_def)

lemma finishLasso_long:
  assumes "selectionPath s = Some path" "3 \<le> length path"
  shows "selectionMask (finishLasso s) =
     (let m = fold (\<lambda>y. fold (lassoAt (state s) path y) [0..w (state s) - 1]) [0..h (state s) - 1] []
      in if m \<noteq> [] then Some m else None)"
    and "isSelecting (finishLasso s) = False"
    and "selectionPath (finishLasso s) = Some path"
    and "frames (finishLasso s) = frames s"
  using assms by (simp_all add: finishLasso_def Let_def)

text \<open>
  C8. \<^verbatim>\<open>finishLasso\<close> with no path or fewer than 3 vertices is \<^verbatim>\<open>clearSelection\<close>,
  which leaves no mask and no path. With 3 or more vertices the mask is the set of canvas
  pixels \<open>y * w + x\<close> for which an odd number of polygon edges pass the crossing test
  (\<open>yi > y\<close> against \<open>yj > y\<close>), each index once; it is \<^verbatim>\<open>null\<close> when that set is empty.
  The mask is never present and empty.
\<close>

theorem finishLasso_mask:
  "(selectionPath s = None \<longrightarrow> finishLasso s = clearSelection s) \<and>
   (\<forall>path. selectionPath s = Some path \<and> length path < 3 \<longrightarrow> finishLasso s = clearSelection s) \<and>
   selectionMask (clearSelection s) = None \<and>
   selectionPath (clearSelection s) = None \<and>
   (\<forall>path. selectionPath s = Some path \<and> 3 \<le> length path \<longrightarrow>
      (let M = {y * w (state s) + x | x y.
                  0 \<le> x \<and> x < w (state s) \<and> 0 \<le> y \<and> y < h (state s) \<and> insidePolygon x y path}
       in (M = {} \<longrightarrow> selectionMask (finishLasso s) = None) \<and>
          (M \<noteq> {} \<longrightarrow>
             (\<exists>m. selectionMask (finishLasso s) = Some m \<and> set m = M \<and> distinct m)) \<and>
          isSelecting (finishLasso s) = False)) \<and>
   selectionMask (finishLasso s) \<noteq> Some []"
proof -
  have cs: "selectionMask (clearSelection s) = None" "selectionPath (clearSelection s) = None"
    by (simp_all add: clearSelection_def stopMoving_def)
  have long: "(let M = {y * w (state s) + x | x y.
                  0 \<le> x \<and> x < w (state s) \<and> 0 \<le> y \<and> y < h (state s) \<and> insidePolygon x y path}
       in (M = {} \<longrightarrow> selectionMask (finishLasso s) = None) \<and>
          (M \<noteq> {} \<longrightarrow>
             (\<exists>m. selectionMask (finishLasso s) = Some m \<and> set m = M \<and> distinct m)) \<and>
          isSelecting (finishLasso s) = False) \<and> selectionMask (finishLasso s) \<noteq> Some []"
    if p: "selectionPath s = Some path" "3 \<le> length path" for path
  proof -
    let ?m = "fold (\<lambda>y. fold (lassoAt (state s) path y) [0..w (state s) - 1]) [0..h (state s) - 1] []"
    note l = lasso_loops [of "state s" path "w (state s)" "h (state s)"]
    have "selectionMask (finishLasso s) = (if ?m \<noteq> [] then Some ?m else None)"
      using finishLasso_long(1) [OF p] by (simp add: Let_def)
    moreover have "?m = [] \<longleftrightarrow> set ?m = {}" by simp
    ultimately show ?thesis
      unfolding Let_def l(1) [symmetric] using l(2) finishLasso_long(2) [OF p]
      by (auto simp del: set_empty)
  qed
  have ne: "selectionMask (finishLasso s) \<noteq> Some []"
  proof (cases "selectionPath s")
    case None
    then show ?thesis by (simp add: finishLasso_short cs)
  next
    case (Some path)
    then show ?thesis
      using long [OF Some] finishLasso_short(2) [OF Some] cs by (cases "length path < 3") auto
  qed
  show ?thesis
    using finishLasso_short cs long ne by (intro conjI allI impI) auto
qed

theorem finishLasso_mask_witness:
  "selectionPath triangleStore = Some [(1, 1), (4, 1), (1, 4)] \<and>
   3 \<le> length [(1, 1), (4, 1), (1 :: int, 4 :: int)] \<and>
   insidePolygon 2 2 [(1, 1), (4, 1), (1, 4)] \<and> \<not> insidePolygon 0 0 [(1, 1), (4, 1), (1, 4)] \<and>
   (\<exists>m. selectionMask (finishLasso triangleStore) = Some m \<and> 2 * 8 + 2 \<in> set m \<and> 0 \<notin> set m) \<and>
   finishLasso (startLasso 3 3 cornerStore) = clearSelection (startLasso 3 3 cornerStore)"
proof -
  let ?path = "[(1, 1), (4, 1), (1 :: int, 4 :: int)]"
  have p: "selectionPath triangleStore = Some ?path" and l: "3 \<le> length ?path"
    and st: "w (state triangleStore) = 8" "h (state triangleStore) = 8"
    by (simp_all add: triangleStore_def cornerStore_def initialStore_def)
  have in22: "insidePolygon 2 2 ?path"
    by (simp add: insidePolygon_def polygonEdges_def intersect_def)
  have out00: "\<not> insidePolygon 0 0 ?path"
    by (simp add: insidePolygon_def polygonEdges_def intersect_def)
  let ?M = "{y * 8 + x | x y. 0 \<le> x \<and> x < 8 \<and> 0 \<le> y \<and> y < 8 \<and> insidePolygon x y ?path}"
  have "2 * 8 + 2 \<in> ?M" using in22 by (intro CollectI exI [of _ 2]) simp
  moreover have "0 \<notin> ?M"
  proof
    assume "0 \<in> ?M"
    then obtain x y where xy: "0 = y * 8 + x" "0 \<le> x" "0 \<le> y" and i: "insidePolygon x y ?path"
      by auto
    from xy have "x = 0 \<and> y = 0" by linarith
    then show False using out00 i by simp
  qed
  moreover have "?M \<noteq> {} \<longrightarrow>
      (\<exists>m. selectionMask (finishLasso triangleStore) = Some m \<and> set m = ?M \<and> distinct m)"
    using finishLasso_mask [of triangleStore, THEN conjunct2, THEN conjunct2, THEN conjunct2,
        THEN conjunct2, THEN conjunct1, rule_format, OF conjI [OF p l]]
    unfolding Let_def st by blast
  ultimately have m: "\<exists>m. selectionMask (finishLasso triangleStore) = Some m \<and>
      2 * 8 + 2 \<in> set m \<and> 0 \<notin> set m"
    by blast
  have sp: "selectionPath (startLasso 3 3 cornerStore) = Some [(3, 3)]"
    by (simp add: startLasso_def)
  have "finishLasso (startLasso 3 3 cornerStore) = clearSelection (startLasso 3 3 cornerStore)"
    using finishLasso_mask [of "startLasso 3 3 cornerStore"] sp by simp
  then show ?thesis using p in22 out00 m by simp
qed

subsection \<open>Moving the selection\<close>

lemma fold_pair:
  assumes "\<And>x a b. f x (a, b) = (F x a, G x b)"
  shows "fold f xs (a, b) = (fold F xs a, fold G xs b)"
  by (induction xs arbitrary: a b) (simp_all add: assms)

lemma idx_div_less:
  fixes i W H :: int
  assumes "0 < W" "i < W * H"
  shows "i div W < H"
proof (rule ccontr)
  assume "\<not> i div W < H"
  then have "H \<le> i div W" by simp
  then have "H * W \<le> i div W * W" using assms(1) by (intro mult_right_mono) auto
  also have "\<dots> = i - i mod W" by (simp add: minus_mod_eq_div_mult [symmetric])
  also have "\<dots> \<le> i" using assms(1) by simp
  finally show False using assms(2) by (simp add: mult.commute)
qed

lemma idx_coords:
  fixes i W H :: int
  assumes "0 < W" "0 \<le> i" "i < W * H"
  shows "0 \<le> i mod W" "i mod W < W" "0 \<le> i div W" "i div W < H" "i div W * W + i mod W = i"
    "jsRem i W = i mod W"
  using assms idx_div_less [OF assms(1,3)]
  by (simp_all add: pos_imp_zdiv_nonneg_iff jsRem_def sgn_if)

lemma fold_mapSet_fresh:
  "distinct m \<Longrightarrow> fst ` set fm \<inter> set m = {} \<Longrightarrow>
     fold (\<lambda>idx. mapSet idx (g idx)) m fm = fm @ map (\<lambda>idx. (idx, g idx)) m"
proof (induction m arbitrary: fm)
  case Nil
  then show ?case by simp
next
  case (Cons a m)
  have "a \<notin> fst ` set fm" using Cons.prems(2) by auto
  then have s: "mapSet a (g a) fm = fm @ [(a, g a)]" by (simp add: mapSet_def)
  have "fst ` set (fm @ [(a, g a)]) \<inter> set m = {}" using Cons.prems by auto
  then show ?case using Cons.IH [of "fm @ [(a, g a)]"] Cons.prems(1) by (simp add: s)
qed

lemma lift_loop:
  assumes "distinct m"
  shows "fold (liftAt frame) m (frame, []) =
     (fold (\<lambda>idx b. wr b idx 0) m frame, map (\<lambda>idx. (idx, rd frame idx)) m)"
proof -
  have "fold (liftAt frame) m (frame, []) =
      (fold (\<lambda>idx b. wr b idx 0) m frame, fold (\<lambda>idx. mapSet idx (rd frame idx)) m [])"
    by (rule fold_pair) (simp add: liftAt_def)
  then show ?thesis using fold_mapSet_fresh [OF assms, of "[]" "rd frame"] by simp
qed

lemma base_length: "length (fold (\<lambda>idx b. wr b idx 0) m frame) = length frame"
  by (rule fold_length) (simp_all add: length_wr)

lemma base_rd:
  assumes "0 \<le> j" "j < int (length frame)"
  shows "rd (fold (\<lambda>idx b. wr b idx 0) m frame) j = (if j \<in> set m then Some 0 else rd frame j)"
proof (cases "j \<in> set m")
  case True
  have "rd (fold (\<lambda>idx b. wr b idx 0) m frame) j = Some 0"
  proof (rule fold_rd_hit [where n = "length frame"])
    show "\<exists>x \<in> set m. \<forall>a. length a = length frame \<longrightarrow> rd (wr a x 0) j = Some 0"
      using True assms by (intro bexI [of _ j]) (auto simp: rd_wr)
  qed (auto simp: rd_wr length_wr)
  then show ?thesis using True by simp
next
  case False
  have "rd (fold (\<lambda>idx b. wr b idx 0) m frame) j = rd frame j"
  proof (rule fold_rd_keep [where n = "length frame"])
    fix x and a :: Uint32Array assume "x \<in> set m" "length a = length frame"
    then show "length (wr a x 0) = length frame \<and> rd (wr a x 0) j = rd a j"
      using False by (auto simp: rd_wr length_wr)
  qed simp
  then show ?thesis using False by simp
qed


lemma drop_loop:
  "fold (dropAt st dx dy) (map (\<lambda>idx. (idx, rd frame idx)) m) (base, []) =
     (fold (\<lambda>idx out. if dropped st dx dy idx then out
                        else wr out (landsOn st dx dy idx) (stored (rd frame idx))) m base,
      fold (\<lambda>idx nm. if \<not> dropped st dx dy idx then setAdd (landsOn st dx dy idx) nm else nm) m [])"
proof -
  have G: "fold (dropAt st dx dy) fm (base, []) =
     (fold (\<lambda>(idx, col) out. if dropped st dx dy idx then out
                        else wr out (landsOn st dx dy idx) (stored col)) fm base,
      fold (\<lambda>(idx, col) nm. if \<not> dropped st dx dy idx then setAdd (landsOn st dx dy idx) nm else nm) fm [])"
    for fm
    by (rule fold_pair) (auto simp: dropAt_def Let_def dropped_def landsOn_def)
  show ?thesis unfolding G by (simp add: fold_map comp_def)
qed

lemma drop_step:
  assumes Wpos: "0 < w st" and idx: "0 \<le> idx" "idx < w st * h st"
    and la: "int (length a) = w st * h st"
    and p: "0 \<le> px" "px < w st" "0 \<le> py" "py < h st"
  shows "length (if dropped st dx dy idx then a else wr a (landsOn st dx dy idx) v) = length a"
    and "rd (if dropped st dx dy idx then a else wr a (landsOn st dx dy idx) v) (py * w st + px) =
       (if idx = (py - dy) * w st + (px - dx) \<and> 0 \<le> px - dx \<and> px - dx < w st
        then Some v else rd a (py * w st + px))"
proof -
  show "length (if dropped st dx dy idx then a else wr a (landsOn st dx dy idx) v) = length a"
    by (simp add: length_wr)
  note c = idx_coords [OF Wpos idx]
  let ?x = "idx mod w st" and ?y = "idx div w st"
  have hit: "(idx = (py - dy) * w st + (px - dx) \<and> 0 \<le> px - dx \<and> px - dx < w st) \<longleftrightarrow>
      (?x + dx = px \<and> ?y + dy = py)"
  proof
    assume h: "idx = (py - dy) * w st + (px - dx) \<and> 0 \<le> px - dx \<and> px - dx < w st"
    then have "?y * w st + ?x = (py - dy) * w st + (px - dx)" using c(5) by simp
    from idx_inj [OF c(1,2) _ _ this] h show "?x + dx = px \<and> ?y + dy = py" by auto
  next
    assume h: "?x + dx = px \<and> ?y + dy = py"
    then have "px - dx = ?x" "py - dy = ?y" by auto
    then show "idx = (py - dy) * w st + (px - dx) \<and> 0 \<le> px - dx \<and> px - dx < w st"
      using c by simp
  qed
  show "rd (if dropped st dx dy idx then a else wr a (landsOn st dx dy idx) v) (py * w st + px) =
       (if idx = (py - dy) * w st + (px - dx) \<and> 0 \<le> px - dx \<and> px - dx < w st
        then Some v else rd a (py * w st + px))"
  proof (cases "dropped st dx dy idx")
    case True
    then have "\<not> (?x + dx = px \<and> ?y + dy = py)"
      using p by (auto simp: dropped_def c(6))
    then show ?thesis using True hit by auto
  next
    case False
    then have b: "0 \<le> ?x + dx" "?x + dx < w st" "0 \<le> ?y + dy" "?y + dy < h st"
      by (auto simp: dropped_def c(6))
    have l: "landsOn st dx dy idx = (?y + dy) * w st + (?x + dx)"
      by (simp add: landsOn_def c(6))
    have r: "0 \<le> landsOn st dx dy idx" "landsOn st dx dy idx < int (length a)"
      using idx_bounds [OF b] la l by auto
    have "py * w st + px = landsOn st dx dy idx \<longleftrightarrow> (?x + dx = px \<and> ?y + dy = py)"
      unfolding l using idx_inj [OF p(1,2) b(1,2), of py "?y + dy"] by auto
    then show ?thesis using False r hit by (auto simp: rd_wr)
  qed
qed


lemma drop_out_length:
  "length (fold (\<lambda>idx out. if dropped st dx dy idx then out
                        else wr out (landsOn st dx dy idx) (g idx)) m base) = length base"
  by (rule fold_length) (simp_all add: length_wr)

lemma drop_out_rd:
  assumes Wpos: "0 < w st" and mk: "maskOk st m" and la: "int (length base) = w st * h st"
    and p: "0 \<le> px" "px < w st" "0 \<le> py" "py < h st"
  shows "rd (fold (\<lambda>idx out. if dropped st dx dy idx then out
                        else wr out (landsOn st dx dy idx) (g idx)) m base) (py * w st + px) =
     (if 0 \<le> px - dx \<and> px - dx < w st \<and> (py - dy) * w st + (px - dx) \<in> set m
      then Some (g ((py - dy) * w st + (px - dx))) else rd base (py * w st + px))"
proof -
  let ?f = "\<lambda>idx out. if dropped st dx dy idx then out else wr out (landsOn st dx dy idx) (g idx)"
  let ?j = "py * w st + px"
  let ?i0 = "(py - dy) * w st + (px - dx)"
  have step: "length (?f idx a) = length base \<and>
      rd (?f idx a) ?j = (if idx = ?i0 \<and> 0 \<le> px - dx \<and> px - dx < w st then Some (g idx) else rd a ?j)"
    if "idx \<in> set m" "length a = length base" for idx and a :: Uint32Array
  proof -
    have i: "0 \<le> idx" "idx < w st * h st" using mk that(1) by (auto simp: maskOk_def)
    have l: "int (length a) = w st * h st" using la that(2) by simp
    show ?thesis
      using drop_step [OF Wpos i l p, of dx dy "g idx"] that(2) by simp
  qed
  show ?thesis
  proof (cases "0 \<le> px - dx \<and> px - dx < w st \<and> ?i0 \<in> set m")
    case True
    have "rd (fold ?f m base) ?j = Some (g ?i0)"
    proof (rule fold_rd_hit [where n = "length base"])
      show "\<exists>x \<in> set m. \<forall>a. length a = length base \<longrightarrow> rd (?f x a) ?j = Some (g ?i0)"
        using True step by (intro bexI [of _ ?i0]) auto
      fix idx and a :: Uint32Array assume "idx \<in> set m" "length a = length base"
      from step [OF this]
      show "length (?f idx a) = length base \<and>
          (rd (?f idx a) ?j = Some (g ?i0) \<or> rd (?f idx a) ?j = rd a ?j)"
        by (cases "idx = ?i0") auto
    qed simp
    then show ?thesis using True by simp
  next
    case False
    have "rd (fold ?f m base) ?j = rd base ?j"
    proof (rule fold_rd_keep [where n = "length base"])
      fix idx and a :: Uint32Array assume h: "idx \<in> set m" "length a = length base"
      then have "\<not> (idx = ?i0 \<and> 0 \<le> px - dx \<and> px - dx < w st)" using False by auto
      then show "length (?f idx a) = length base \<and> rd (?f idx a) ?j = rd a ?j"
        using step [OF h] by auto
    qed simp
    then show ?thesis using False by auto
  qed
qed

lemma drop_mask:
  assumes Wpos: "0 < w st" and mk: "maskOk st m"
  shows "set (fold (\<lambda>idx nm. if \<not> dropped st dx dy idx then setAdd (landsOn st dx dy idx) nm else nm) m []) =
     {(y + dy) * w st + (x + dx) | x y.
        0 \<le> x \<and> x < w st \<and> 0 \<le> y \<and> y < h st \<and> y * w st + x \<in> set m \<and>
        0 \<le> x + dx \<and> x + dx < w st \<and> 0 \<le> y + dy \<and> y + dy < h st}" (is "?L = ?R")
    and "distinct (fold (\<lambda>idx nm. if \<not> dropped st dx dy idx then setAdd (landsOn st dx dy idx) nm else nm) m [])"
proof -
  have L: "?L = landsOn st dx dy ` {idx \<in> set m. \<not> dropped st dx dy idx}"
    by (simp add: fold_setAdd(1))
  show "?L = ?R"
  proof (intro set_eqI iffI)
    fix t assume "t \<in> ?L"
    then obtain idx where i: "idx \<in> set m" "\<not> dropped st dx dy idx" "t = landsOn st dx dy idx"
      unfolding L by auto
    have r: "0 \<le> idx" "idx < w st * h st" using mk i(1) by (auto simp: maskOk_def)
    note c = idx_coords [OF Wpos r]
    have "t = (idx div w st + dy) * w st + (idx mod w st + dx) \<and>
        0 \<le> idx mod w st \<and> idx mod w st < w st \<and> 0 \<le> idx div w st \<and> idx div w st < h st \<and>
        idx div w st * w st + idx mod w st \<in> set m \<and>
        0 \<le> idx mod w st + dx \<and> idx mod w st + dx < w st \<and>
        0 \<le> idx div w st + dy \<and> idx div w st + dy < h st"
      using i c by (auto simp: landsOn_def dropped_def)
    then show "t \<in> ?R" by blast
  next
    fix t assume "t \<in> ?R"
    then obtain x y where xy: "t = (y + dy) * w st + (x + dx)" "0 \<le> x" "x < w st"
      "y * w st + x \<in> set m" "0 \<le> x + dx" "x + dx < w st" "0 \<le> y + dy" "y + dy < h st"
      by blast
    let ?idx = "y * w st + x"
    have dm: "?idx div w st = y" "?idx mod w st = x" using xy(2,3) by simp_all
    have r: "0 \<le> ?idx" "?idx < w st * h st" using mk xy(4) by (auto simp: maskOk_def)
    have j: "jsRem ?idx (w st) = x" using idx_coords(6) [OF Wpos r] dm by simp
    have "\<not> dropped st dx dy ?idx" "landsOn st dx dy ?idx = t"
      using xy by (simp_all add: dropped_def landsOn_def dm j)
    then have "t \<in> landsOn st dx dy ` {idx \<in> set m. \<not> dropped st dx dy idx}"
      using xy(4) by (intro image_eqI [of _ _ ?idx]) simp_all
    then show "t \<in> ?L" unfolding L .
  qed
  show "distinct (fold (\<lambda>idx nm. if \<not> dropped st dx dy idx then setAdd (landsOn st dx dy idx) nm else nm) m [])"
    by (rule fold_setAdd(2)) simp
qed


lemma activeFrame_pushUndo: "activeFrame (pushUndo s) = activeFrame s"
  by (simp add: activeFrame_def frames_pushUndo active_pushUndo)

lemma startMoveSelection_Inr:
  assumes fr: "activeFrame s = Some frame" and m: "selectionMask s = Some m" "m \<noteq> []" "distinct m"
  shows "startMoveSelection sx sy s =
     Inr ((pushUndo s)\<lparr>baseWhileMoving := Some (fold (\<lambda>idx b. wr b idx 0) m frame),
            floatingPixels := Some (map (\<lambda>idx. (idx, rd frame idx)) m),
            moving := True, moveStart := Some (sx, sy), moveDx := 0, moveDy := 0\<rparr>)"
proof -
  have "selectionMask (pushUndo s) = Some m" using m(1) by (simp add: pushUndo_def Let_def)
  then show ?thesis
    using m by (simp add: startMoveSelection_def Let_def activeFrame_pushUndo fr lift_loop)
qed

text \<open>
  C3. On a store whose frames have the configured size, with a non-empty selection mask
  \<open>M\<close> of canvas indices: \<^verbatim>\<open>startMoveSelection\<close> at \<open>(sx, sy)\<close> returns,
  \<^verbatim>\<open>updateMoveSelection\<close> at \<open>(cx, cy)\<close> sets the displacement \<open>(dx, dy) = (cx - sx, cy - sy)\<close>,
  and \<^verbatim>\<open>endMoveSelection\<close> replaces the active frame by the one that holds, at every
  canvas position, the original pixel of the position \<open>(dx, dy)\<close> before it when that one is
  on the canvas and selected, else transparent 0 when the position itself is selected, else
  the original pixel. Selected pixels whose target is off the canvas are dropped. The new
  mask is the set of targets written, each once, and \<^verbatim>\<open>null\<close> when there is none; the move
  state is cleared.
\<close>

theorem move_commit:
  assumes ok: "framesOk s" and fr: "activeFrame s = Some frame" and Wpos: "0 < w (state s)"
    and m: "selectionMask s = Some m" "m \<noteq> []" "maskOk (state s) m"
  shows "\<exists>s1. startMoveSelection sx sy s = Inr s1 \<and>
     (let s3 = endMoveSelection (updateMoveSelection cx cy s1);
          dx = cx - sx; dy = cy - sy; W = w (state s); H = h (state s);
          T = {(y + dy) * W + (x + dx) | x y.
                 0 \<le> x \<and> x < W \<and> 0 \<le> y \<and> y < H \<and> y * W + x \<in> set m \<and>
                 0 \<le> x + dx \<and> x + dx < W \<and> 0 \<le> y + dy \<and> y + dy < H}
      in (\<exists>out. activeFrame s3 = Some out \<and> length out = length frame \<and>
            frames s3 = (frames s)[nat (active s) := out] \<and>
            (\<forall>px py. 0 \<le> px \<and> px < W \<and> 0 \<le> py \<and> py < H \<longrightarrow>
               rd out (py * W + px) =
                 (if 0 \<le> px - dx \<and> px - dx < W \<and> 0 \<le> py - dy \<and> py - dy < H \<and>
                     (py - dy) * W + (px - dx) \<in> set m
                  then rd frame ((py - dy) * W + (px - dx))
                  else if py * W + px \<in> set m then Some 0 else rd frame (py * W + px)))) \<and>
         (T = {} \<longrightarrow> selectionMask s3 = None) \<and>
         (T \<noteq> {} \<longrightarrow> (\<exists>nm. selectionMask s3 = Some nm \<and> set nm = T \<and> distinct nm)) \<and>
         moving s3 = False \<and> floatingPixels s3 = None \<and> baseWhileMoving s3 = None \<and>
         state s3 = state s)"
proof -
  let ?st = "state s"
  let ?W = "w ?st" and ?H = "h ?st"
  let ?dx = "cx - sx" and ?dy = "cy - sy"
  let ?base = "fold (\<lambda>idx b. wr b idx 0) m frame"
  let ?fm = "map (\<lambda>idx. (idx, rd frame idx)) m"
  let ?s1 = "(pushUndo s)\<lparr>baseWhileMoving := Some ?base, floatingPixels := Some ?fm,
            moving := True, moveStart := Some (sx, sy), moveDx := 0, moveDy := 0\<rparr>"
  let ?s2 = "updateMoveSelection cx cy ?s1"
  let ?s3 = "endMoveSelection ?s2"
  let ?out = "fold (\<lambda>idx out. if dropped ?st ?dx ?dy idx then out
                        else wr out (landsOn ?st ?dx ?dy idx) (stored (rd frame idx))) m ?base"
  let ?nm = "fold (\<lambda>idx nm. if \<not> dropped ?st ?dx ?dy idx
                        then setAdd (landsOn ?st ?dx ?dy idx) nm else nm) m []"
  let ?T = "{(y + ?dy) * ?W + (x + ?dx) | x y.
                 0 \<le> x \<and> x < ?W \<and> 0 \<le> y \<and> y < ?H \<and> y * ?W + x \<in> set m \<and>
                 0 \<le> x + ?dx \<and> x + ?dx < ?W \<and> 0 \<le> y + ?dy \<and> y + ?dy < ?H}"
  have dm: "distinct m" using m(3) by (simp add: maskOk_def)
  have start: "startMoveSelection sx sy s = Inr ?s1"
    by (rule startMoveSelection_Inr [OF fr m(1,2) dm])
  have aok: "activeOk s" and frn: "frames s ! nat (active s) = frame"
    using fr by (simp_all add: activeFrame_Some)
  then have "frame \<in> set (frames s)" by (auto simp: activeOk_def)
  then have len: "int (length frame) = ?W * ?H" using ok by (simp add: framesOk_def)
  have s2: "?s2 = ?s1\<lparr>moveDx := ?dx, moveDy := ?dy\<rparr>"
    by (simp add: updateMoveSelection_def)
  have sel: "selectionMask (pushUndo s) = Some m" using m(1) by (simp add: pushUndo_def Let_def)
  have aok1: "activeOk (replaceActiveFrame out ?s2) \<and> activeOk ?s2" for out
    using aok by (simp add: s2 activeOk_def replaceActiveFrame_def Let_def frames_pushUndo active_pushUndo)
  have s3: "?s3 = stopMoving ((replaceActiveFrame ?out ?s2)
      \<lparr>selectionMask := (if ?nm \<noteq> [] then Some ?nm else None)\<rparr>)"
    unfolding endMoveSelection_def
    by (simp add: s2 sel state_pushUndo drop_loop Let_def)
  have fr3: "frames ?s3 = (frames s)[nat (active s) := ?out]"
    unfolding s3 using frames_replaceActiveFrame [of ?s2 ?out] aok1
    by (simp add: stopMoving_def s2 frames_pushUndo active_pushUndo)
  have act3: "active ?s3 = active s"
    unfolding s3 by (simp add: stopMoving_def active_replaceActiveFrame s2 active_pushUndo)
  have af3: "activeFrame ?s3 = Some ?out"
    using aok by (simp add: activeFrame_def fr3 act3 activeOk_def nat_less_iff)
  have lo: "length ?out = length frame"
    by (simp add: drop_out_length base_length)
  have lb: "int (length ?base) = ?W * ?H" using len by (simp add: base_length)
  have px: "rd ?out (py * ?W + px) =
                 (if 0 \<le> px - ?dx \<and> px - ?dx < ?W \<and> 0 \<le> py - ?dy \<and> py - ?dy < ?H \<and>
                     (py - ?dy) * ?W + (px - ?dx) \<in> set m
                  then rd frame ((py - ?dy) * ?W + (px - ?dx))
                  else if py * ?W + px \<in> set m then Some 0 else rd frame (py * ?W + px))"
    if p: "0 \<le> px" "px < ?W" "0 \<le> py" "py < ?H" for px py
  proof -
    let ?i0 = "(py - ?dy) * ?W + (px - ?dx)"
    have j: "0 \<le> py * ?W + px" "py * ?W + px < int (length frame)"
      using idx_bounds [OF p] len by auto
    have q: "0 \<le> py - ?dy \<and> py - ?dy < ?H \<and> rd frame ?i0 = Some (stored (rd frame ?i0))"
      if h: "0 \<le> px - ?dx" "px - ?dx < ?W" "?i0 \<in> set m"
    proof -
      have r: "0 \<le> ?i0" "?i0 < ?W * ?H" using m(3) h(3) by (auto simp: maskOk_def)
      have "?i0 div ?W = py - ?dy" using h(1,2) by simp
      then show ?thesis
        using idx_coords(3,4) [OF Wpos r] r len by (simp add: rd_def stored_def)
    qed
    show ?thesis
      unfolding drop_out_rd [OF Wpos m(3) lb p] base_rd [OF j] using q by auto
  qed
  have T: "set ?nm = ?T" "distinct ?nm"
    using drop_mask [OF Wpos m(3), of ?dx ?dy] by simp_all
  have sm: "selectionMask ?s3 = (if ?nm \<noteq> [] then Some ?nm else None)"
    unfolding s3 by (simp add: stopMoving_def)
  have e: "?nm = [] \<longleftrightarrow> ?T = {}" unfolding T(1) [symmetric] by simp
  have mv: "moving ?s3 = False" "floatingPixels ?s3 = None" "baseWhileMoving ?s3 = None"
    unfolding s3 by (simp_all add: stopMoving_def)
  have st3: "state ?s3 = state s"
    unfolding s3 by (simp add: stopMoving_def state_replaceActiveFrame s2 state_pushUndo)
  have 1: "\<exists>out. activeFrame ?s3 = Some out \<and> length out = length frame \<and>
            frames ?s3 = (frames s)[nat (active s) := out] \<and>
            (\<forall>px py. 0 \<le> px \<and> px < ?W \<and> 0 \<le> py \<and> py < ?H \<longrightarrow>
               rd out (py * ?W + px) =
                 (if 0 \<le> px - ?dx \<and> px - ?dx < ?W \<and> 0 \<le> py - ?dy \<and> py - ?dy < ?H \<and>
                     (py - ?dy) * ?W + (px - ?dx) \<in> set m
                  then rd frame ((py - ?dy) * ?W + (px - ?dx))
                  else if py * ?W + px \<in> set m then Some 0 else rd frame (py * ?W + px)))"
  proof (intro exI [of _ ?out] conjI allI impI)
    show "activeFrame ?s3 = Some ?out" by (rule af3)
    show "length ?out = length frame" by (rule lo)
    show "frames ?s3 = (frames s)[nat (active s) := ?out]" by (rule fr3)
    fix px py assume "0 \<le> px \<and> px < ?W \<and> 0 \<le> py \<and> py < ?H"
    then show "rd ?out (py * ?W + px) =
                 (if 0 \<le> px - ?dx \<and> px - ?dx < ?W \<and> 0 \<le> py - ?dy \<and> py - ?dy < ?H \<and>
                     (py - ?dy) * ?W + (px - ?dx) \<in> set m
                  then rd frame ((py - ?dy) * ?W + (px - ?dx))
                  else if py * ?W + px \<in> set m then Some 0 else rd frame (py * ?W + px))"
      by (intro px) simp_all
  qed
  have 2: "?T = {} \<longrightarrow> selectionMask ?s3 = None" using sm e by simp
  have 3: "?T \<noteq> {} \<longrightarrow> (\<exists>nm. selectionMask ?s3 = Some nm \<and> set nm = ?T \<and> distinct nm)"
    using sm e T by auto
  show ?thesis
    unfolding Let_def
    apply (rule exI [of _ ?s1])
    apply (intro conjI)
    subgoal by (rule start)
    subgoal by (rule 1)
    subgoal by (rule 2)
    subgoal by (rule 3)
    subgoal by (rule mv(1))
    subgoal by (rule mv(2))
    subgoal by (rule mv(3))
    subgoal by (rule st3)
    done
qed

theorem move_commit_witness:
  "framesOk selectedStore \<and> activeFrame selectedStore = Some ((makeFrame 8 8 0)[0 := 0xff000000]) \<and>
   selectionMask selectedStore = Some [0, 1] \<and> maskOk (state selectedStore) [0, 1] \<and>
   (\<exists>s1. startMoveSelection 0 0 selectedStore = Inr s1 \<and>
      (\<exists>out. activeFrame (endMoveSelection (updateMoveSelection 7 0 s1)) = Some out \<and>
         rd out 7 = Some 0xff000000 \<and> rd out 0 = Some 0 \<and> rd out 1 = Some 0 \<and> rd out 8 = Some 0) \<and>
      (\<exists>nm. selectionMask (endMoveSelection (updateMoveSelection 7 0 s1)) = Some nm \<and> 7 \<in> set nm))"
proof -
  let ?fr = "(makeFrame 8 8 0)[0 := 0xff000000]"
  have st: "w (state selectedStore) = 8" "h (state selectedStore) = 8"
    "frames selectedStore = [?fr]" "active selectedStore = 0"
    by (simp_all add: selectedStore_def cornerStore_def initialStore_def)
  have ok: "framesOk selectedStore" by (simp add: framesOk_def st makeFrame_def)
  have fr: "activeFrame selectedStore = Some ?fr" by (simp add: activeFrame_def st)
  have W: "0 < w (state selectedStore)" by (simp add: st)
  have m: "selectionMask selectedStore = Some [0, 1]" "[0, 1 :: int] \<noteq> []"
    "maskOk (state selectedStore) [0, 1]"
    using st(1,2) by (simp_all add: selectedStore_def maskOk_def)
  from move_commit [OF ok fr W m, of 0 0 7 0]
  obtain s1 where s1: "startMoveSelection 0 0 selectedStore = Inr s1"
    and r: "(let s3 = endMoveSelection (updateMoveSelection 7 0 s1);
          dx = 7 - 0; dy = 0 - 0; W = w (state selectedStore); H = h (state selectedStore);
          T = {(y + dy) * W + (x + dx) | x y.
                 0 \<le> x \<and> x < W \<and> 0 \<le> y \<and> y < H \<and> y * W + x \<in> set [0, 1] \<and>
                 0 \<le> x + dx \<and> x + dx < W \<and> 0 \<le> y + dy \<and> y + dy < H}
      in (\<exists>out. activeFrame s3 = Some out \<and> length out = length ?fr \<and>
            frames s3 = (frames selectedStore)[nat (active selectedStore) := out] \<and>
            (\<forall>px py. 0 \<le> px \<and> px < W \<and> 0 \<le> py \<and> py < H \<longrightarrow>
               rd out (py * W + px) =
                 (if 0 \<le> px - dx \<and> px - dx < W \<and> 0 \<le> py - dy \<and> py - dy < H \<and>
                     (py - dy) * W + (px - dx) \<in> set [0, 1]
                  then rd ?fr ((py - dy) * W + (px - dx))
                  else if py * W + px \<in> set [0, 1] then Some 0 else rd ?fr (py * W + px)))) \<and>
         (T = {} \<longrightarrow> selectionMask s3 = None) \<and>
         (T \<noteq> {} \<longrightarrow> (\<exists>nm. selectionMask s3 = Some nm \<and> set nm = T \<and> distinct nm)) \<and>
         moving s3 = False \<and> floatingPixels s3 = None \<and> baseWhileMoving s3 = None \<and>
         state s3 = state selectedStore)"
    by blast
  let ?s3 = "endMoveSelection (updateMoveSelection 7 0 s1)"
  let ?T = "{(y + (0 - 0)) * 8 + (x + (7 - 0)) | x y :: int.
                 0 \<le> x \<and> x < 8 \<and> 0 \<le> y \<and> y < 8 \<and> y * 8 + x \<in> set [0, 1] \<and>
                 0 \<le> x + (7 - 0) \<and> x + (7 - 0) < 8 \<and> 0 \<le> y + (0 - 0) \<and> y + (0 - 0) < 8}"
  note r' = r [unfolded Let_def st]
  from r' [THEN conjunct1] obtain out where out: "activeFrame ?s3 = Some out"
    and px: "\<forall>px py. 0 \<le> px \<and> px < 8 \<and> 0 \<le> py \<and> py < 8 \<longrightarrow>
               rd out (py * 8 + px) =
                 (if 0 \<le> px - (7 - 0) \<and> px - (7 - 0) < 8 \<and> 0 \<le> py - (0 - 0) \<and> py - (0 - 0) < 8 \<and>
                     (py - (0 - 0)) * 8 + (px - (7 - 0)) \<in> set [0, 1]
                  then rd ?fr ((py - (0 - 0)) * 8 + (px - (7 - 0)))
                  else if py * 8 + px \<in> set [0, 1] then Some 0 else rd ?fr (py * 8 + px))"
    by blast
  have T: "?T \<noteq> {} \<longrightarrow> (\<exists>nm. selectionMask ?s3 = Some nm \<and> set nm = ?T \<and> distinct nm)"
    by (rule r' [THEN conjunct2, THEN conjunct2, THEN conjunct1])
  have "rd out 7 = Some 0xff000000"
    using px [rule_format, of 7 0] by (simp add: rd_def makeFrame_def)
  moreover have "rd out 0 = Some 0"
    using px [rule_format, of 0 0] by (simp add: rd_def makeFrame_def)
  moreover have "rd out 1 = Some 0"
    using px [rule_format, of 1 0] by (simp add: rd_def makeFrame_def)
  moreover have "rd out 8 = Some 0"
    using px [rule_format, of 0 1] by (simp add: rd_def makeFrame_def)
  moreover have "7 \<in> ?T" by (intro CollectI exI [of _ 0]) simp
  then have "\<exists>nm. selectionMask ?s3 = Some nm \<and> 7 \<in> set nm" using T by blast
  ultimately show ?thesis using ok fr m s1 out by blast
qed

subsection \<open>Copy and paste\<close>

lemma fold_min_Min:
  fixes f :: "'a \<Rightarrow> int"
  shows "fold (\<lambda>x. min (f x)) xs a = Min (insert a (f ` set xs))"
proof (induction xs arbitrary: a)
  case Nil
  then show ?case by simp
next
  case (Cons x xs)
  have "Min (insert (min (f x) a) (f ` set xs)) = Min (insert a (insert (f x) (f ` set xs)))"
    by (cases "f ` set xs = {}") (simp_all add: min.assoc min.commute min.left_commute)
  then show ?case by (simp add: Cons.IH)
qed

lemma fold_max_Max:
  fixes f :: "'a \<Rightarrow> int"
  shows "fold (\<lambda>x. max (f x)) xs a = Max (insert a (f ` set xs))"
proof (induction xs arbitrary: a)
  case Nil
  then show ?case by simp
next
  case (Cons x xs)
  have "Max (insert (max (f x) a) (f ` set xs)) = Max (insert a (insert (f x) (f ` set xs)))"
    by (cases "f ` set xs = {}") (simp_all add: max.assoc max.commute max.left_commute)
  then show ?case by (simp add: Cons.IH)
qed

lemma fold_boundsStep:
  "fold (boundsStep W) xs (a, b, c, d) =
     (fold (\<lambda>idx. min (jsRem idx W)) xs a, fold (\<lambda>idx. min (idx div W)) xs b,
      fold (\<lambda>idx. max (jsRem idx W)) xs c, fold (\<lambda>idx. max (idx div W)) xs d)"
  by (induction xs arbitrary: a b c d) (simp_all add: boundsStep_def Let_def min_def max_def)

lemma boundsFromMask_Min_Max:
  assumes "m \<noteq> []"
  shows "boundsFromMask m W =
     Some (Min ((\<lambda>idx. jsRem idx W) ` set m), Min ((\<lambda>idx. idx div W) ` set m),
           Max ((\<lambda>idx. jsRem idx W) ` set m), Max ((\<lambda>idx. idx div W) ` set m))"
  using assms
  by (cases m) (simp_all add: boundsFromMask_def Let_def fold_boundsStep fold_min_Min fold_max_Max)

lemma bounds_facts:
  assumes Wpos: "0 < w st" and mk: "maskOk st m"
    and bx: "boundsFromMask m (w st) = Some (minX, minY, maxX, maxY)"
  shows "0 \<le> minX" "maxX < w st" "0 \<le> minY" "maxY < h st"
    and "\<And>idx. idx \<in> set m \<Longrightarrow>
           minX \<le> idx mod w st \<and> idx mod w st \<le> maxX \<and> minY \<le> idx div w st \<and> idx div w st \<le> maxY"
proof -
  have ne: "m \<noteq> []" using bx by (auto simp: boundsFromMask_def)
  let ?X = "(\<lambda>idx. jsRem idx (w st)) ` set m" and ?Y = "(\<lambda>idx. idx div w st) ` set m"
  have b: "minX = Min ?X" "minY = Min ?Y" "maxX = Max ?X" "maxY = Max ?Y"
    using bx boundsFromMask_Min_Max [OF ne, of "w st"] by simp_all
  have fin: "finite ?X" "?X \<noteq> {}" "finite ?Y" "?Y \<noteq> {}" using ne by simp_all
  have c: "0 \<le> idx mod w st \<and> idx mod w st < w st \<and> 0 \<le> idx div w st \<and> idx div w st < h st \<and>
      jsRem idx (w st) = idx mod w st" if "idx \<in> set m" for idx
  proof -
    have r: "0 \<le> idx" "idx < w st * h st" using mk that by (auto simp: maskOk_def)
    show ?thesis using idx_coords [OF Wpos r] by simp
  qed
  have X: "\<forall>v \<in> ?X. 0 \<le> v \<and> v < w st" and Y: "\<forall>v \<in> ?Y. 0 \<le> v \<and> v < h st"
    using c by auto
  show "0 \<le> minX" "maxX < w st" using X Min_in [OF fin(1,2)] Max_in [OF fin(1,2)] b by auto
  show "0 \<le> minY" "maxY < h st" using Y Min_in [OF fin(3,4)] Max_in [OF fin(3,4)] b by auto
  fix idx assume i: "idx \<in> set m"
  then have "jsRem idx (w st) \<in> ?X" "idx div w st \<in> ?Y" by auto
  then have "minX \<le> jsRem idx (w st)" "jsRem idx (w st) \<le> maxX"
    "minY \<le> idx div w st" "idx div w st \<le> maxY"
    unfolding b using fin by simp_all
  then show "minX \<le> idx mod w st \<and> idx mod w st \<le> maxX \<and> minY \<le> idx div w st \<and> idx div w st \<le> maxY"
    using c [OF i] by simp
qed

lemma clip_rd:
  assumes Wpos: "0 < w st" and mk: "maskOk st m"
    and bx: "boundsFromMask m (w st) = Some (minX, minY, maxX, maxY)"
    and c: "0 \<le> cx" "cx < maxX - minX + 1" "0 \<le> cy" "cy < maxY - minY + 1"
  shows "rd (fold (copyAt st frame minX minY (maxX - minX + 1)) m
              (replicate (nat ((maxX - minX + 1) * (maxY - minY + 1))) 0))
            (cy * (maxX - minX + 1) + cx) =
         Some (if (cy + minY) * w st + (cx + minX) \<in> set m
               then stored (rd frame ((cy + minY) * w st + (cx + minX))) else 0)"
proof -
  let ?cw = "maxX - minX + 1" and ?ch = "maxY - minY + 1"
  let ?a0 = "replicate (nat (?cw * ?ch)) (0 :: pixel)"
  let ?j = "cy * ?cw + cx"
  let ?i0 = "(cy + minY) * w st + (cx + minX)"
  let ?f = "copyAt st frame minX minY ?cw"
  note bf = bounds_facts [OF Wpos mk bx]
  have pos: "0 \<le> ?cw * ?ch" using c by simp
  have la: "int (length ?a0) = ?cw * ?ch" using pos by simp
  have j: "0 \<le> ?j" "?j < ?cw * ?ch" using idx_bounds [OF c] by auto
  have step: "length (?f idx a) = length ?a0 \<and>
      rd (?f idx a) ?j = (if idx = ?i0 then Some (stored (rd frame idx)) else rd a ?j)"
    if i: "idx \<in> set m" and l: "length a = length ?a0" for idx and a :: Uint32Array
  proof -
    have r: "0 \<le> idx" "idx < w st * h st" using mk i by (auto simp: maskOk_def)
    note co = idx_coords [OF Wpos r]
    let ?x = "idx mod w st" and ?y = "idx div w st"
    have t: "0 \<le> ?x - minX" "?x - minX < ?cw" "0 \<le> ?y - minY" "?y - minY < ?ch"
      using bf(5) [OF i] by auto
    have e: "?f idx a = wr a ((?y - minY) * ?cw + (?x - minX)) (stored (rd frame idx))"
      by (simp add: copyAt_def Let_def co(6))
    have tr: "0 \<le> (?y - minY) * ?cw + (?x - minX)" "(?y - minY) * ?cw + (?x - minX) < int (length a)"
      using idx_bounds [OF t] l la by auto
    have "?j = (?y - minY) * ?cw + (?x - minX) \<longleftrightarrow> cx = ?x - minX \<and> cy = ?y - minY"
      using idx_inj [OF c(1,2) t(1,2), of cy "?y - minY"] by auto
    also have "\<dots> \<longleftrightarrow> idx = ?i0"
    proof
      assume "cx = ?x - minX \<and> cy = ?y - minY"
      then have "?i0 = ?y * w st + ?x" by simp
      then show "idx = ?i0" using co(5) by simp
    next
      assume h: "idx = ?i0"
      have "0 \<le> cx + minX" "cx + minX < w st" using c bf by auto
      then have "?i0 mod w st = cx + minX" "?i0 div w st = cy + minY" by simp_all
      then show "cx = ?x - minX \<and> cy = ?y - minY" using h by simp
    qed
    finally show ?thesis using tr l by (simp add: e rd_wr length_wr)
  qed
  show ?thesis
  proof (cases "?i0 \<in> set m")
    case True
    have "rd (fold ?f m ?a0) ?j = Some (stored (rd frame ?i0))"
    proof (rule fold_rd_hit [where n = "length ?a0"])
      show "\<exists>x \<in> set m. \<forall>a. length a = length ?a0 \<longrightarrow> rd (?f x a) ?j = Some (stored (rd frame ?i0))"
        using True step by (intro bexI [of _ ?i0]) auto
      fix idx and a :: Uint32Array assume "idx \<in> set m" "length a = length ?a0"
      from step [OF this]
      show "length (?f idx a) = length ?a0 \<and>
          (rd (?f idx a) ?j = Some (stored (rd frame ?i0)) \<or> rd (?f idx a) ?j = rd a ?j)"
        by (cases "idx = ?i0") auto
    qed simp
    then show ?thesis using True by simp
  next
    case False
    have "rd (fold ?f m ?a0) ?j = rd ?a0 ?j"
    proof (rule fold_rd_keep [where n = "length ?a0"])
      fix idx and a :: Uint32Array assume h: "idx \<in> set m" "length a = length ?a0"
      then have "idx \<noteq> ?i0" using False by auto
      then show "length (?f idx a) = length ?a0 \<and> rd (?f idx a) ?j = rd a ?j"
        using step [OF h] by auto
    qed simp
    also have "\<dots> = Some 0" using j la by (simp add: rd_def)
    finally show ?thesis using False by simp
  qed
qed

lemma clip_length:
  "length (fold (copyAt st frame minX minY cw') m a) = length a"
  by (rule fold_length) (simp_all add: copyAt_def Let_def length_wr)


lemma paste_loops:
  "fold (\<lambda>y. fold (pasteAt st clip atX atY y) xs) ys (g, []) =
     (fold (\<lambda>(y, x) out. if pasteSkips st clip atX atY y x then out
              else wr out ((atY + y) * w st + (atX + x)) (stored (rd (pixels clip) (y * cw clip + x))))
        (List.product ys xs) g,
      fold (\<lambda>(y, x) nm. if \<not> pasteSkips st clip atX atY y x
              then setAdd ((atY + y) * w st + (atX + x)) nm else nm)
        (List.product ys xs) [])"
  unfolding fold_product
  by (rule fold_pair) (auto simp: pasteAt_def pasteSkips_def Let_def)

lemma paste_rd:
  assumes Wpos: "0 < w st" and mk: "maskOk st m"
    and bx: "boundsFromMask m (w st) = Some (minX, minY, maxX, maxY)"
    and cl: "cw clip = maxX - minX + 1" "ch clip = maxY - minY + 1"
      "pixels clip = fold (copyAt st frame minX minY (maxX - minX + 1)) m
              (replicate (nat ((maxX - minX + 1) * (maxY - minY + 1))) 0)"
    and lf: "int (length frame) = w st * h st"
    and lg: "int (length g) = w st * h st"
    and p: "0 \<le> px" "px < w st" "0 \<le> py" "py < h st"
  shows "rd (fold (\<lambda>(y, x) out. if pasteSkips st clip minX minY y x then out
              else wr out ((minY + y) * w st + (minX + x)) (stored (rd (pixels clip) (y * cw clip + x))))
        (List.product [0..ch clip - 1] [0..cw clip - 1]) g) (py * w st + px) =
     (if py * w st + px \<in> set m \<and> alpha (stored (rd frame (py * w st + px))) \<noteq> 0
      then rd frame (py * w st + px) else rd g (py * w st + px))"
proof -
  let ?cw = "maxX - minX + 1" and ?ch = "maxY - minY + 1"
  let ?j = "py * w st + px"
  let ?f = "\<lambda>(y, x) out. if pasteSkips st clip minX minY y x then out
              else wr out ((minY + y) * w st + (minX + x)) (stored (rd (pixels clip) (y * cw clip + x)))"
  let ?xs = "List.product [0..ch clip - 1] [0..cw clip - 1]"
  note bf = bounds_facts [OF Wpos mk bx]
  have j: "0 \<le> ?j" "?j < int (length frame)" using idx_bounds [OF p] lf by auto
  have fj: "rd frame ?j = Some (stored (rd frame ?j))" using j by (simp add: rd_def stored_def)
  have col: "rd (pixels clip) (y * cw clip + x) =
      Some (if (y + minY) * w st + (x + minX) \<in> set m
            then stored (rd frame ((y + minY) * w st + (x + minX))) else 0)"
    if "0 \<le> x" "x < ?cw" "0 \<le> y" "y < ?ch" for x y
    unfolding cl using clip_rd [OF Wpos mk bx that] .
  have step: "length (?f q a) = length g \<and>
      rd (?f q a) ?j =
        (if minX + snd q = px \<and> minY + fst q = py \<and> ?j \<in> set m \<and> alpha (stored (rd frame ?j)) \<noteq> 0
         then rd frame ?j else rd a ?j)"
    if q: "q \<in> set ?xs" and l: "length a = length g" for q and a :: Uint32Array
  proof -
    obtain y x where qe: "q = (y, x)" by (cases q)
    have b: "0 \<le> x" "x < ?cw" "0 \<le> y" "y < ?ch" using q unfolding qe cl by auto
    have t: "0 \<le> minX + x" "minX + x < w st" "0 \<le> minY + y" "minY + y < h st"
      using b bf by auto
    have tr: "0 \<le> (minY + y) * w st + (minX + x)" "(minY + y) * w st + (minX + x) < int (length a)"
      using idx_bounds [OF t] l lg by auto
    have inj: "?j = (minY + y) * w st + (minX + x) \<longleftrightarrow> minX + x = px \<and> minY + y = py"
      using idx_inj [OF p(1,2) t(1,2), of py "minY + y"] by auto
    have c: "rd (pixels clip) (y * cw clip + x) =
      Some (if (minY + y) * w st + (minX + x) \<in> set m
            then stored (rd frame ((minY + y) * w st + (minX + x))) else 0)"
      using col [OF b] by (simp add: add.commute)
    show ?thesis
    proof (cases "minX + x = px \<and> minY + y = py")
      case True
      then have e: "(minY + y) * w st + (minX + x) = ?j" by simp
      show ?thesis
        unfolding qe using True t tr fj l
        by (auto simp: pasteSkips_def c e rd_wr length_wr stored_def alpha_0)
    next
      case False
      then show ?thesis
        unfolding qe using inj tr l by (auto simp: rd_wr length_wr)
    qed
  qed
  show ?thesis
  proof (cases "?j \<in> set m \<and> alpha (stored (rd frame ?j)) \<noteq> 0")
    case True
    then have i: "?j \<in> set m" by simp
    have dm: "?j mod w st = px" "?j div w st = py" using p by simp_all
    have qm: "(py - minY, px - minX) \<in> set ?xs"
      using bf(5) [OF i] unfolding dm cl by auto
    have "rd (fold ?f ?xs g) ?j = Some (stored (rd frame ?j))"
    proof (rule fold_rd_hit [where n = "length g"])
      show "\<exists>q \<in> set ?xs. \<forall>a. length a = length g \<longrightarrow> rd (?f q a) ?j = Some (stored (rd frame ?j))"
      proof (intro bexI [of _ "(py - minY, px - minX)"] allI impI)
        fix a :: Uint32Array assume l: "length a = length g"
        have "rd (?f (py - minY, px - minX) a) ?j = rd frame ?j"
          using step [OF qm l] True by simp
        then show "rd (?f (py - minY, px - minX) a) ?j = Some (stored (rd frame ?j))"
          using fj by simp
      qed (rule qm)
      fix q and a :: Uint32Array assume "q \<in> set ?xs" "length a = length g"
      from step [OF this] fj
      show "length (?f q a) = length g \<and>
          (rd (?f q a) ?j = Some (stored (rd frame ?j)) \<or> rd (?f q a) ?j = rd a ?j)"
        by auto
    qed simp
    then show ?thesis using True fj by simp
  next
    case False
    have "rd (fold ?f ?xs g) ?j = rd g ?j"
    proof (rule fold_rd_keep [where n = "length g"])
      fix q and a :: Uint32Array assume h: "q \<in> set ?xs" "length a = length g"
      show "length (?f q a) = length g \<and> rd (?f q a) ?j = rd a ?j"
        using step [OF h] False by auto
    qed simp
    then show ?thesis using False by auto
  qed
qed

lemma paste_length:
  "length (fold (\<lambda>(y, x) out. if pasteSkips st clip atX atY y x then out
              else wr out ((atY + y) * w st + (atX + x)) (stored (rd (pixels clip) (y * cw clip + x))))
        xs g) = length g"
  by (rule fold_length) (auto simp: length_wr)


lemma pasteClipboard_frames:
  assumes cl: "clipboard s = Some clip" and g: "activeFrame s = Some g"
  shows "frames (pasteClipboard atX atY s) =
     (frames s)[nat (active s) :=
        fold (\<lambda>(y, x) out. if pasteSkips (state s) clip atX atY y x then out
              else wr out ((atY + y) * w (state s) + (atX + x))
                     (stored (rd (pixels clip) (y * cw clip + x))))
          (List.product [0..ch clip - 1] [0..cw clip - 1]) g]"
    and "active (pasteClipboard atX atY s) = active s"
    and "state (pasteClipboard atX atY s) = state s"
proof -
  have aok: "activeOk (pushUndo s)"
    using g by (simp add: activeFrame_Some activeOk_def frames_pushUndo active_pushUndo)
  show "frames (pasteClipboard atX atY s) =
     (frames s)[nat (active s) :=
        fold (\<lambda>(y, x) out. if pasteSkips (state s) clip atX atY y x then out
              else wr out ((atY + y) * w (state s) + (atX + x))
                     (stored (rd (pixels clip) (y * cw clip + x))))
          (List.product [0..ch clip - 1] [0..cw clip - 1]) g]"
    unfolding pasteClipboard_def Let_def state_pushUndo
    by (simp add: cl activeFrame_pushUndo g newUint32Array_def
        paste_loops frames_replaceActiveFrame [OF aok] frames_pushUndo active_pushUndo)
  show "active (pasteClipboard atX atY s) = active s"
    by (simp add: pasteClipboard_def cl Let_def paste_loops active_replaceActiveFrame
        active_pushUndo split: prod.splits)
  show "state (pasteClipboard atX atY s) = state s"
    by (simp add: pasteClipboard_def cl Let_def paste_loops state_replaceActiveFrame
        state_pushUndo split: prod.splits)
qed

lemma copySelection_Inr:
  assumes fr: "activeFrame s = Some frame" and m: "selectionMask s = Some m" "m \<noteq> []"
    and bx: "boundsFromMask m (w (state s)) = Some (minX, minY, maxX, maxY)"
  shows "copySelection s =
     Inr (s\<lparr>clipboard := Some \<lparr>cw = maxX - minX + 1, ch = maxY - minY + 1,
                pixels = fold (copyAt (state s) frame minX minY (maxX - minX + 1)) m
                   (replicate (nat ((maxX - minX + 1) * (maxY - minY + 1))) 0)\<rparr>,
             uiAviso := Some SeleccionCopiada\<rparr>)"
  using m by (simp add: copySelection_def bx fr Let_def)


text \<open>
  C6. On a store whose frames have the configured size, with a non-empty selection mask
  \<open>M\<close> of canvas indices: \<^verbatim>\<open>copySelection\<close> returns and leaves the frames as they are;
  the clipboard has the size of the bounding box of \<open>M\<close> and holds the frame's pixel at
  every position of \<open>M\<close> and transparent 0 at every other position of the box. Pasting it
  at the top-left \<open>(minX, minY)\<close> of the box onto the unchanged frame gives back exactly
  the same frames. Pasted there onto any frame \<open>g\<close> of the canvas size, it writes the copied
  pixel at the positions of \<open>M\<close> whose pixel has non-zero alpha and leaves every other
  position of \<open>g\<close> untouched, those of the box outside \<open>M\<close> included.
\<close>

theorem copy_paste_roundtrip:
  assumes ok: "framesOk s" and fr: "activeFrame s = Some frame" and Wpos: "0 < w (state s)"
    and m: "selectionMask s = Some m" "m \<noteq> []" "maskOk (state s) m"
  shows "\<exists>minX minY maxX maxY s1 clip.
     minX = Min ((\<lambda>idx. idx mod w (state s)) ` set m) \<and>
     minY = Min ((\<lambda>idx. idx div w (state s)) ` set m) \<and>
     maxX = Max ((\<lambda>idx. idx mod w (state s)) ` set m) \<and>
     maxY = Max ((\<lambda>idx. idx div w (state s)) ` set m) \<and>
     boundsFromMask m (w (state s)) = Some (minX, minY, maxX, maxY) \<and>
     copySelection s = Inr s1 \<and> clipboard s1 = Some clip \<and> frames s1 = frames s \<and>
     cw clip = maxX - minX + 1 \<and> ch clip = maxY - minY + 1 \<and>
     int (length (pixels clip)) = cw clip * ch clip \<and>
     (\<forall>cx cy. 0 \<le> cx \<and> cx < cw clip \<and> 0 \<le> cy \<and> cy < ch clip \<longrightarrow>
        rd (pixels clip) (cy * cw clip + cx) =
          (if (cy + minY) * w (state s) + (cx + minX) \<in> set m
           then rd frame ((cy + minY) * w (state s) + (cx + minX)) else Some 0)) \<and>
     frames (pasteClipboard minX minY s1) = frames s \<and>
     (\<forall>g. int (length g) = w (state s) * h (state s) \<longrightarrow>
        (\<exists>out. activeFrame (pasteClipboard minX minY (replaceActiveFrame g s1)) = Some out \<and>
           length out = length g \<and>
           (\<forall>px py. 0 \<le> px \<and> px < w (state s) \<and> 0 \<le> py \<and> py < h (state s) \<longrightarrow>
              rd out (py * w (state s) + px) =
                (if py * w (state s) + px \<in> set m \<and>
                    alpha (stored (rd frame (py * w (state s) + px))) \<noteq> 0
                 then rd frame (py * w (state s) + px) else rd g (py * w (state s) + px)))))"
proof -
  let ?st = "state s"
  let ?W = "w ?st" and ?H = "h ?st"
  let ?minX = "Min ((\<lambda>idx. idx mod ?W) ` set m)" and ?minY = "Min ((\<lambda>idx. idx div ?W) ` set m)"
  let ?maxX = "Max ((\<lambda>idx. idx mod ?W) ` set m)" and ?maxY = "Max ((\<lambda>idx. idx div ?W) ` set m)"
  let ?cw = "?maxX - ?minX + 1" and ?ch = "?maxY - ?minY + 1"
  let ?px = "fold (copyAt ?st frame ?minX ?minY ?cw) m (replicate (nat (?cw * ?ch)) 0)"
  let ?clip = "\<lparr>cw = ?cw, ch = ?ch, pixels = ?px\<rparr>"
  let ?s1 = "s\<lparr>clipboard := Some ?clip, uiAviso := Some SeleccionCopiada\<rparr>"
  let ?F = "\<lambda>(y, x) out. if pasteSkips ?st ?clip ?minX ?minY y x then out
              else wr out ((?minY + y) * ?W + (?minX + x))
                     (stored (rd (pixels ?clip) (y * cw ?clip + x)))"
  let ?xs = "List.product [0..ch ?clip - 1] [0..cw ?clip - 1]"
  have jm: "(\<lambda>idx. jsRem idx ?W) ` set m = (\<lambda>idx. idx mod ?W) ` set m"
  proof (rule image_cong [OF refl])
    fix idx assume "idx \<in> set m"
    then have "0 \<le> idx" "idx < ?W * ?H" using m(3) by (auto simp: maskOk_def)
    then show "jsRem idx ?W = idx mod ?W" using idx_coords(6) [OF Wpos] by simp
  qed
  have bx: "boundsFromMask m ?W = Some (?minX, ?minY, ?maxX, ?maxY)"
    using boundsFromMask_Min_Max [OF m(2), of ?W] by (simp add: jm)
  note bf = bounds_facts [OF Wpos m(3) bx]
  have aok: "activeOk s" and frn: "frames s ! nat (active s) = frame"
    using fr by (simp_all add: activeFrame_Some)
  then have "frame \<in> set (frames s)" by (auto simp: activeOk_def)
  then have len: "int (length frame) = ?W * ?H" using ok by (simp add: framesOk_def)
  have copy: "copySelection s = Inr ?s1"
    by (rule copySelection_Inr [OF fr m(1,2) bx])
  have pos: "0 \<le> ?cw * ?ch"
  proof -
    obtain i where "i \<in> set m" using m(2) by (cases m) auto
    from bf(5) [OF this] have "0 \<le> ?cw" "0 \<le> ?ch" by linarith+
    then show ?thesis by simp
  qed
  have lp: "int (length ?px) = ?cw * ?ch" using pos by (simp add: clip_length)
  have content: "rd ?px (cy * ?cw + cx) =
          (if (cy + ?minY) * ?W + (cx + ?minX) \<in> set m
           then rd frame ((cy + ?minY) * ?W + (cx + ?minX)) else Some 0)"
    if c: "0 \<le> cx" "cx < ?cw" "0 \<le> cy" "cy < ?ch" for cx cy
  proof -
    have "rd frame i = Some (stored (rd frame i))" if "i \<in> set m" for i
    proof -
      have "0 \<le> i" "i < ?W * ?H" using m(3) that by (auto simp: maskOk_def)
      then show ?thesis using len by (simp add: rd_def stored_def)
    qed
    then show ?thesis unfolding clip_rd [OF Wpos m(3) bx c] by auto
  qed
  have paste: "\<exists>out. activeFrame (pasteClipboard ?minX ?minY (replaceActiveFrame g ?s1)) = Some out \<and>
           length out = length g \<and>
           (\<forall>px py. 0 \<le> px \<and> px < ?W \<and> 0 \<le> py \<and> py < ?H \<longrightarrow>
              rd out (py * ?W + px) =
                (if py * ?W + px \<in> set m \<and> alpha (stored (rd frame (py * ?W + px))) \<noteq> 0
                 then rd frame (py * ?W + px) else rd g (py * ?W + px)))"
    if lg: "int (length g) = ?W * ?H" for g
  proof -
    let ?s2 = "replaceActiveFrame g ?s1"
    have aok1: "activeOk ?s1" using aok by (simp add: activeOk_def)
    have s2: "clipboard ?s2 = Some ?clip" "activeFrame ?s2 = Some g" "state ?s2 = ?st"
      "active ?s2 = active s"
      using activeFrame_replaceActiveFrame [OF aok1, of g]
      by (simp_all add: replaceActiveFrame_def Let_def)
    have aok2: "activeOk ?s2" using s2(2) by (simp add: activeFrame_Some)
    note pf = pasteClipboard_frames [OF s2(1,2), of ?minX ?minY, unfolded s2(3)]
    have af: "activeFrame (pasteClipboard ?minX ?minY ?s2) = Some (fold ?F ?xs g)"
      using aok2 by (simp add: activeFrame_def pf(1,2) activeOk_def nat_less_iff)
    have lo: "length (fold ?F ?xs g) = length g" by (rule paste_length)
    have rdo: "rd (fold ?F ?xs g) (py * ?W + px) =
                (if py * ?W + px \<in> set m \<and> alpha (stored (rd frame (py * ?W + px))) \<noteq> 0
                 then rd frame (py * ?W + px) else rd g (py * ?W + px))"
      if p: "0 \<le> px" "px < ?W" "0 \<le> py" "py < ?H" for px py
      by (rule paste_rd [OF Wpos m(3) bx _ _ _ len lg p]) simp_all
    show ?thesis
    proof (intro exI [of _ "fold ?F ?xs g"] conjI allI impI)
      show "activeFrame (pasteClipboard ?minX ?minY ?s2) = Some (fold ?F ?xs g)" by (rule af)
      show "length (fold ?F ?xs g) = length g" by (rule lo)
      fix px py assume "0 \<le> px \<and> px < ?W \<and> 0 \<le> py \<and> py < ?H"
      then show "rd (fold ?F ?xs g) (py * ?W + px) =
                (if py * ?W + px \<in> set m \<and> alpha (stored (rd frame (py * ?W + px))) \<noteq> 0
                 then rd frame (py * ?W + px) else rd g (py * ?W + px))"
        by (intro rdo) simp_all
    qed
  qed
  have same: "frames (pasteClipboard ?minX ?minY ?s1) = frames s"
  proof -
    have "activeFrame ?s1 = activeFrame s" by (simp add: activeFrame_def)
    then have s1: "clipboard ?s1 = Some ?clip" "activeFrame ?s1 = Some frame"
      using fr by simp_all
    note pf = pasteClipboard_frames [OF s1, of ?minX ?minY]
    have st1: "state ?s1 = ?st" by simp
    have "fold ?F ?xs frame = frame"
    proof (rule frame_eqI [OF Wpos _ len])
      show "int (length (fold ?F ?xs frame)) = ?W * ?H" using len by (simp add: paste_length)
      fix px py assume p: "0 \<le> px" "px < ?W" "0 \<le> py" "py < ?H"
      have "rd (fold ?F ?xs frame) (py * ?W + px) =
                (if py * ?W + px \<in> set m \<and> alpha (stored (rd frame (py * ?W + px))) \<noteq> 0
                 then rd frame (py * ?W + px) else rd frame (py * ?W + px))"
        by (rule paste_rd [OF Wpos m(3) bx _ _ _ len len p]) simp_all
      then show "rd (fold ?F ?xs frame) (py * ?W + px) = rd frame (py * ?W + px)" by simp
    qed
    then have "frames (pasteClipboard ?minX ?minY ?s1) = (frames s)[nat (active s) := frame]"
      using pf(1) unfolding st1 by simp
    moreover have "(frames s)[nat (active s) := frame] = frames s"
      unfolding frn [symmetric] by (rule list_update_id)
    ultimately show ?thesis by simp
  qed
  show ?thesis
  proof (rule exI [of _ ?minX], rule exI [of _ ?minY], rule exI [of _ ?maxX],
      rule exI [of _ ?maxY], rule exI [of _ ?s1], rule exI [of _ ?clip], intro conjI allI impI)
    show "boundsFromMask m ?W = Some (?minX, ?minY, ?maxX, ?maxY)" by (rule bx)
    show "copySelection s = Inr ?s1" by (rule copy)
    show "frames (pasteClipboard ?minX ?minY ?s1) = frames s" by (rule same)
    show "int (length (pixels ?clip)) = cw ?clip * ch ?clip" using lp by simp
    fix cx cy assume "0 \<le> cx \<and> cx < cw ?clip \<and> 0 \<le> cy \<and> cy < ch ?clip"
    then show "rd (pixels ?clip) (cy * cw ?clip + cx) =
          (if (cy + ?minY) * ?W + (cx + ?minX) \<in> set m
           then rd frame ((cy + ?minY) * ?W + (cx + ?minX)) else Some 0)"
      using content [of cx cy] by simp
  next
    fix g :: Uint32Array assume "int (length g) = ?W * ?H"
    then show "\<exists>out. activeFrame (pasteClipboard ?minX ?minY (replaceActiveFrame g ?s1)) = Some out \<and>
           length out = length g \<and>
           (\<forall>px py. 0 \<le> px \<and> px < ?W \<and> 0 \<le> py \<and> py < ?H \<longrightarrow>
              rd out (py * ?W + px) =
                (if py * ?W + px \<in> set m \<and> alpha (stored (rd frame (py * ?W + px))) \<noteq> 0
                 then rd frame (py * ?W + px) else rd g (py * ?W + px)))"
      by (rule paste)
  qed simp_all
qed


theorem copy_paste_roundtrip_witness:
  "framesOk selectedStore \<and> activeFrame selectedStore = Some ((makeFrame 8 8 0)[0 := 0xff000000]) \<and>
   selectionMask selectedStore = Some [0, 1] \<and> maskOk (state selectedStore) [0, 1] \<and>
   (\<exists>s1 clip. copySelection selectedStore = Inr s1 \<and> clipboard s1 = Some clip \<and>
      cw clip = 2 \<and> ch clip = 1 \<and>
      rd (pixels clip) 0 = Some 0xff000000 \<and> rd (pixels clip) 1 = Some 0 \<and>
      frames (pasteClipboard 0 0 s1) = frames selectedStore)"
proof -
  let ?fr = "(makeFrame 8 8 0)[0 := 0xff000000]"
  have st: "w (state selectedStore) = 8" "h (state selectedStore) = 8"
    "frames selectedStore = [?fr]" "active selectedStore = 0"
    by (simp_all add: selectedStore_def cornerStore_def initialStore_def)
  have ok: "framesOk selectedStore" by (simp add: framesOk_def st makeFrame_def)
  have fr: "activeFrame selectedStore = Some ?fr" by (simp add: activeFrame_def st)
  have W: "0 < w (state selectedStore)" by (simp add: st)
  have m: "selectionMask selectedStore = Some [0, 1]" "[0, 1 :: int] \<noteq> []"
    "maskOk (state selectedStore) [0, 1]"
    using st(1,2) by (simp_all add: selectedStore_def maskOk_def)
  have mn: "Min ((\<lambda>idx. idx mod 8) ` set [0, 1 :: int]) = 0"
    "Min ((\<lambda>idx. idx div 8) ` set [0, 1 :: int]) = 0"
    "Max ((\<lambda>idx. idx mod 8) ` set [0, 1 :: int]) = 1"
    "Max ((\<lambda>idx. idx div 8) ` set [0, 1 :: int]) = 0"
    by simp_all
  from copy_paste_roundtrip [OF ok fr W m, unfolded st mn]
  obtain s1 clip where c: "copySelection selectedStore = Inr s1" "clipboard s1 = Some clip"
    "cw clip = 1 - 0 + 1" "ch clip = 0 - 0 + 1"
    and px: "\<forall>cx cy. 0 \<le> cx \<and> cx < cw clip \<and> 0 \<le> cy \<and> cy < ch clip \<longrightarrow>
        rd (pixels clip) (cy * cw clip + cx) =
          (if (cy + 0) * 8 + (cx + 0) \<in> set [0, 1]
           then rd ?fr ((cy + 0) * 8 + (cx + 0)) else Some 0)"
    and same: "frames (pasteClipboard 0 0 s1) = [?fr]"
    by blast
  have "rd (pixels clip) 0 = Some 0xff000000"
    using px [rule_format, of 0 0] c(3,4) by (simp add: rd_def makeFrame_def)
  moreover have "rd (pixels clip) 1 = Some 0"
    using px [rule_format, of 1 0] c(3,4) by (simp add: rd_def makeFrame_def)
  ultimately show ?thesis using ok fr m c same st(3) by auto
qed

subsection \<open>A fill that returns\<close>

lemma pushed_adjacent:
  assumes "inCanvas W H p"
  shows "n \<in> set (pushed W H p) \<longleftrightarrow> adjacent p n \<and> inCanvas W H n"
proof -
  obtain x y where p: "p = (x, y)" by (cases p)
  obtain a b where n: "n = (a, b)" by (cases n)
  show ?thesis
    using assms unfolding p n pushed_def adjacent_def inCanvas_def
    by (auto split: if_splits)
qed

lemma filter_update_less:
  "i < length xs \<Longrightarrow> P (xs ! i) \<Longrightarrow> \<not> P v \<Longrightarrow>
     length (filter P (xs[i := v])) < length (filter P xs)"
proof (induction xs arbitrary: i)
  case Nil
  then show ?case by simp
next
  case (Cons a xs)
  show ?case
  proof (cases i)
    case 0
    then show ?thesis using Cons.prems by simp
  next
    case (Suc j)
    then have "length (filter P (xs[j := v])) < length (filter P xs)"
      using Cons.IH [of j] Cons.prems by simp
    then show ?thesis using Suc by simp
  qed
qed

lemma length_pushed: "length (pushed W H p) \<le> 4"
  by (simp add: pushed_def)

lemma inCanvas_idx:
  assumes "inCanvas W H p"
  shows "0 \<le> snd p * W + fst p" "snd p * W + fst p < W * H"
  using assms idx_bounds [of "fst p" W "snd p" H] by (auto simp: inCanvas_def)

lemma inCanvas_inj:
  assumes "inCanvas W H p" "inCanvas W H n" "snd p * W + fst p = snd n * W + fst n"
  shows "p = n"
  using assms idx_inj [of "fst p" W "fst n" "snd p" "snd n"]
  by (auto simp: inCanvas_def prod_eq_iff)

lemma component_inCanvas: "p \<in> component W H frame p0 \<Longrightarrow> inCanvas W H p"
  by (induction rule: component.induct) auto

lemma component_value:
  "p \<in> component W H frame p0 \<Longrightarrow> rd frame (snd p * W + fst p) = rd frame (snd p0 * W + fst p0)"
  by (induction rule: component.induct) auto


lemma fillLoop_fills:
  assumes c: "rd frame (snd p0 * W + fst p0) = Some c" and ne: "toUint32 newColor \<noteq> c"
  shows "fillInv W H frame c (toUint32 newColor) p0 out q \<Longrightarrow>
     \<exists>r. fillLoop W H (Some c) newColor out q = Some r \<and> int (length r) = W * H \<and>
         (\<forall>p. inCanvas W H p \<longrightarrow>
            rd r (snd p * W + fst p) =
              (if p \<in> component W H frame p0 then Some (toUint32 newColor)
               else rd frame (snd p * W + fst p)))"
proof (induction "4 * length (filter (\<lambda>x. x = c) out) + length q" arbitrary: out q rule: less_induct)
  case less
  let ?v = "toUint32 newColor"
  let ?R = "component W H frame p0"
  let ?i = "\<lambda>p :: int \<times> int. snd p * W + fst p"
  from less.prems obtain F where len: "int (length out) = W * H"
    and qc: "\<forall>p \<in> set q. inCanvas W H p"
    and FR: "F \<subseteq> ?R"
    and pt: "\<forall>p. inCanvas W H p \<longrightarrow> rd out (?i p) = (if p \<in> F then Some ?v else rd frame (?i p))"
    and qR: "\<forall>p \<in> set q. rd frame (?i p) = Some c \<longrightarrow> p \<in> ?R"
    and p0: "p0 \<in> F \<or> p0 \<in> set q"
    and cl: "\<forall>p \<in> F. \<forall>n \<in> set (pushed W H p). rd frame (?i n) = Some c \<longrightarrow> n \<in> F \<or> n \<in> set q"
    unfolding fillInv_def by blast
  show ?case
  proof (cases q)
    case Nil
    have "?R \<subseteq> F"
    proof
      fix p assume "p \<in> ?R"
      then show "p \<in> F"
      proof (induction rule: component.induct)
        case start
        then show ?case using p0 Nil by simp
      next
        case (step p n)
        have "inCanvas W H p" using step.hyps(1) by (rule component_inCanvas)
        then have "n \<in> set (pushed W H p)" using step.hyps(2,3) by (simp add: pushed_adjacent)
        moreover have "rd frame (?i n) = Some c" using step.hyps(4) c by simp
        ultimately show ?case using cl step.IH Nil by auto
      qed
    qed
    then have "F = ?R" using FR by auto
    then show ?thesis using Nil len pt by (simp add: fillLoop.simps)
  next
    case (Cons p rest)
    obtain x y where p: "p = (x, y)" by (cases p)
    have pc: "inCanvas W H p" using qc Cons by simp
    have ir: "0 \<le> ?i p" "?i p < int (length out)" using inCanvas_idx [OF pc] len by auto
    show ?thesis
    proof (cases "rd out (?i p) = Some c")
      case False
      have pF: "p \<in> F" if "rd frame (?i p) = Some c"
        using that False pt pc by (metis)
      have inv: "fillInv W H frame c ?v p0 out rest"
        unfolding fillInv_def
      proof (intro conjI exI [of _ F])
        show "p0 \<in> F \<or> p0 \<in> set rest"
          using p0 Cons pF c by auto
        show "\<forall>p \<in> F. \<forall>n \<in> set (pushed W H p). rd frame (?i n) = Some c \<longrightarrow> n \<in> F \<or> n \<in> set rest"
          using cl Cons pF by auto
      qed (use len qc FR pt qR Cons in auto)
      have "4 * length (filter (\<lambda>x. x = c) out) + length rest
          < 4 * length (filter (\<lambda>x. x = c) out) + length q"
        using Cons by simp
      moreover have "fillLoop W H (Some c) newColor out q = fillLoop W H (Some c) newColor out rest"
        using False by (subst fillLoop.simps) (simp add: Cons p)
      ultimately show ?thesis using less.hyps [OF _ inv] by simp
    next
      case True
      let ?out = "wr out (?i p) ?v"
      let ?q = "pushed W H p @ rest"
      have pnF: "p \<notin> F" using True pt pc ne by auto
      then have good: "rd frame (?i p) = Some c" using True pt pc by auto
      have pR: "p \<in> ?R" using qR Cons good by simp
      have inv: "fillInv W H frame c ?v p0 ?out ?q"
        unfolding fillInv_def
      proof (intro conjI exI [of _ "insert p F"])
        show "int (length ?out) = W * H" using len by (simp add: length_wr)
        show "\<forall>n \<in> set ?q. inCanvas W H n"
          using qc Cons pushed_adjacent [OF pc] by auto
        show "insert p F \<subseteq> ?R" using FR pR by simp
        show "\<forall>n. inCanvas W H n \<longrightarrow>
            rd ?out (?i n) = (if n \<in> insert p F then Some ?v else rd frame (?i n))"
        proof (intro allI impI)
          fix n assume nc: "inCanvas W H n"
          have "?i n = ?i p \<longleftrightarrow> n = p" using inCanvas_inj [OF nc pc] by auto
          then show "rd ?out (?i n) = (if n \<in> insert p F then Some ?v else rd frame (?i n))"
            using pt nc ir by (auto simp: rd_wr)
        qed
        show "\<forall>n \<in> set ?q. rd frame (?i n) = Some c \<longrightarrow> n \<in> ?R"
        proof (intro ballI impI)
          fix n assume n: "n \<in> set ?q" and g: "rd frame (?i n) = Some c"
          show "n \<in> ?R"
          proof (cases "n \<in> set rest")
            case True
            then show ?thesis using qR Cons g by simp
          next
            case False
            then have "n \<in> set (pushed W H p)" using n by simp
            then have "adjacent p n" "inCanvas W H n" using pushed_adjacent [OF pc] by auto
            then show ?thesis using component.step [OF pR] g c by simp
          qed
        qed
        show "p0 \<in> insert p F \<or> p0 \<in> set ?q" using p0 Cons by auto
        show "\<forall>a \<in> insert p F. \<forall>n \<in> set (pushed W H a).
            rd frame (?i n) = Some c \<longrightarrow> n \<in> insert p F \<or> n \<in> set ?q"
          using cl Cons by auto
      qed
      have "out ! nat (?i p) = c" using True ir by (simp add: rd_def)
      then have "length (filter (\<lambda>x. x = c) (out[nat (?i p) := ?v]))
          < length (filter (\<lambda>x. x = c) out)"
        using ir ne by (intro filter_update_less) auto
      then have "length (filter (\<lambda>x. x = c) ?out) < length (filter (\<lambda>x. x = c) out)"
        using ir by (simp add: wr_def)
      then have "4 * length (filter (\<lambda>x. x = c) ?out) + length ?q
          < 4 * length (filter (\<lambda>x. x = c) out) + length q"
        using length_pushed [of W H p] Cons by simp
      moreover have "fillLoop W H (Some c) newColor out q = fillLoop W H (Some c) newColor ?out ?q"
        using True by (subst fillLoop.simps) (simp add: Cons p)
      ultimately show ?thesis using less.hyps [OF _ inv] by simp
    qed
  qed
qed


lemma fillInv_start:
  assumes "int (length frame) = W * H" "inCanvas W H p0"
    and "rd frame (snd p0 * W + fst p0) = Some c"
  shows "fillInv W H frame c v p0 frame [p0]"
  unfolding fillInv_def
proof (intro conjI exI [of _ "{}"])
  show "\<forall>p \<in> set [p0]. rd frame (snd p * W + fst p) = Some c \<longrightarrow> p \<in> component W H frame p0"
    using assms(2) by (simp add: component.start)
qed (use assms in auto)

lemma sameNumber_toUint32: "sameNumber (Some c) n \<Longrightarrow> toUint32 n = c"
  by (auto simp: sameNumber_def toUint32_def)

text \<open>
  With a new colour that is not the start pixel's value modulo \<open>2\<^sup>3\<^sup>2\<close>, \<^verbatim>\<open>floodFill\<close>
  returns, and the frame it installs differs from the old one exactly on the component of
  the start position, where it holds the new colour.
\<close>

lemma floodFill_fills:
  assumes len: "int (length frame) = W * H" and p0: "inCanvas W H (x0, y0)"
    and ne: "rd frame (y0 * W + x0) \<noteq> Some (toUint32 newColor)"
  shows "\<exists>out. floodFill x0 y0 frame W H newColor s = Some (replaceActiveFrame out s) \<and>
     int (length out) = W * H \<and>
     (\<forall>p. inCanvas W H p \<longrightarrow>
        rd out (snd p * W + fst p) =
          (if p \<in> component W H frame (x0, y0) then Some (toUint32 newColor)
           else rd frame (snd p * W + fst p)))"
proof -
  have ir: "0 \<le> y0 * W + x0" "y0 * W + x0 < int (length frame)"
    using inCanvas_idx [OF p0] len by auto
  then obtain c where c: "rd frame (y0 * W + x0) = Some c" by (simp add: rd_def)
  then have ne': "toUint32 newColor \<noteq> c" using ne by auto
  then have ns: "\<not> sameNumber (Some c) newColor" using sameNumber_toUint32 by blast
  have inv: "fillInv W H frame c (toUint32 newColor) (x0, y0) frame [(x0, y0)]"
    using len p0 c by (intro fillInv_start) auto
  have c': "rd frame (snd (x0, y0) * W + fst (x0, y0)) = Some c" using c by simp
  from fillLoop_fills [OF c' ne' inv] obtain r
    where r: "fillLoop W H (Some c) newColor frame [(x0, y0)] = Some r"
      and lr: "int (length r) = W * H"
      and pr: "\<forall>p. inCanvas W H p \<longrightarrow>
        rd r (snd p * W + fst p) =
          (if p \<in> component W H frame (x0, y0) then Some (toUint32 newColor)
           else rd frame (snd p * W + fst p))"
    by blast
  have "floodFill x0 y0 frame W H newColor s = Some (replaceActiveFrame r s)"
    using p0 ns unfolding floodFill_def Let_def c r by (simp add: inCanvas_def)
  then show ?thesis using lr pr by blast
qed

text \<open>Outside the canvas, or on a pixel that equals the new colour as a number, nothing changes.\<close>

lemma floodFill_noop:
  "\<not> inCanvas W H (x0, y0) \<or> sameNumber (rd frame (y0 * W + x0)) newColor \<Longrightarrow>
     floodFill x0 y0 frame W H newColor s = Some s"
  by (auto simp: floodFill_def inCanvas_def Let_def)

subsection \<open>Flood fill with the colour already there\<close>

lemma wr_same: "rd out i = Some c \<Longrightarrow> wr out i c = out"
  by (auto simp: rd_def wr_def split: if_splits)

lemma paired_sym:
  assumes "paired W H out c p"
  shows "\<exists>n \<in> set (pushed W H p). paired W H out c n"
  using assms unfolding paired_def by blast

text \<open>
  When the new colour is the old one modulo \<open>2\<^sup>3\<^sup>2\<close>, a store writes back what was there,
  so a pixel of a pair on the stack keeps the other one coming: the loop never ends.
\<close>

lemma fillLoop_never_returns_aux:
  assumes run: "fillLoop W H oldColor newColor out q = Some r"
  shows "oldColor = Some (toUint32 newColor) \<longrightarrow>
     (\<exists>p \<in> set q. paired W H out (toUint32 newColor) p) \<longrightarrow> False"
proof (rule fillLoop.raw_induct [where P = "\<lambda>W H oldColor newColor out q r.
    oldColor = Some (toUint32 newColor) \<longrightarrow>
    (\<exists>p \<in> set q. paired W H out (toUint32 newColor) p) \<longrightarrow> False", OF _ run])
  fix f :: "int \<Rightarrow> int \<Rightarrow> pixel option \<Rightarrow> int \<Rightarrow> Uint32Array \<Rightarrow> (int \<times> int) list \<Rightarrow> Uint32Array option"
    and W H oldColor newColor out q r
  assume IH: "\<And>W H oldColor newColor out q r. f W H oldColor newColor out q = Some r \<Longrightarrow>
      oldColor = Some (toUint32 newColor) \<longrightarrow>
      (\<exists>p \<in> set q. paired W H out (toUint32 newColor) p) \<longrightarrow> False"
    and body: "(case q of
        [] \<Rightarrow> Some out
      | (x, y) # rest \<Rightarrow>
          if rd out (y * W + x) \<noteq> oldColor then f W H oldColor newColor out rest
          else f W H oldColor newColor (wr out (y * W + x) (toUint32 newColor))
                 (pushed W H (x, y) @ rest)) = Some r"
  let ?c = "toUint32 newColor"
  show "oldColor = Some ?c \<longrightarrow> (\<exists>p \<in> set q. paired W H out ?c p) \<longrightarrow> False"
  proof (intro impI)
    assume old: "oldColor = Some ?c" and ex: "\<exists>p \<in> set q. paired W H out ?c p"
    from ex obtain p0 where p0: "p0 \<in> set q" "paired W H out ?c p0" by blast
    then obtain x y rest where q: "q = (x, y) # rest" by (cases q) auto
    show False
    proof (cases "rd out (y * W + x) = Some ?c")
      case False
      then have "\<not> paired W H out ?c (x, y)" by (simp add: paired_def)
      then have "p0 \<in> set rest" using p0 q by auto
      moreover have "f W H oldColor newColor out rest = Some r"
        using body False old by (simp add: q)
      ultimately show False using IH old p0(2) by blast
    next
      case True
      let ?q' = "pushed W H (x, y) @ rest"
      have same: "wr out (y * W + x) ?c = out" using True by (rule wr_same)
      have run': "f W H oldColor newColor out ?q' = Some r"
        using body True old by (simp add: q same)
      have "\<exists>p \<in> set ?q'. paired W H out ?c p"
      proof (cases "p0 = (x, y)")
        case True
        then show ?thesis using paired_sym [OF p0(2)] by auto
      next
        case False
        then show ?thesis using p0 q by auto
      qed
      then show False using IH [OF run'] old by blast
    qed
  qed
qed

lemma fillLoop_never_returns:
  assumes "\<exists>p \<in> set q. paired W H out (toUint32 newColor) p"
  shows "fillLoop W H (Some (toUint32 newColor)) newColor out q = None"
proof (cases "fillLoop W H (Some (toUint32 newColor)) newColor out q")
  case None
  then show ?thesis .
next
  case (Some r)
  then show ?thesis using fillLoop_never_returns_aux [OF Some] assms by blast
qed


lemma stamp_active:
  assumes old: "activeFrame s = Some old" and len: "int (length old) = w (state s) * h (state s)"
  shows "\<exists>out. activeFrame (stamp x y c s) = Some out \<and>
           int (length out) = w (state s) * h (state s) \<and>
           (\<forall>px py. 0 \<le> px \<and> px < w (state s) \<and> 0 \<le> py \<and> py < h (state s) \<longrightarrow>
              rd out (py * w (state s) + px) =
                (if (px, py) \<in> stampSquare (brushRadius (state s)) x y (w (state s)) (h (state s))
                 then Some (toUint32 c) else rd old (py * w (state s) + px)))"
proof -
  let ?st = "state s"
  let ?r = "brushRadius ?st"
  let ?out = "fold (\<lambda>oy. fold (stampAt ?st x y c oy) [- ?r..?r]) [- ?r..?r] old"
  have aok: "activeOk s" using old by (simp add: activeFrame_Some)
  have "activeFrame (stamp x y c s) = Some ?out"
    using aok
    by (simp add: activeFrame_def activeOk_def frames_stamp(1) [OF old] frames_stamp(2) [OF old]
        nat_less_iff)
  moreover have "int (length ?out) = w ?st * h ?st" using len by (simp add: stamp_loops_length)
  moreover have "rd ?out (py * w ?st + px) =
             (if (px, py) \<in> stampSquare ?r x y (w ?st) (h ?st) then Some (toUint32 c)
              else rd old (py * w ?st + px))"
    if "0 \<le> px \<and> px < w ?st \<and> 0 \<le> py \<and> py < h ?st" for px py
    using that by (intro stamp_loops_rd [OF len]) simp_all
  ultimately show ?thesis by blast
qed

text \<open>
  C4 fails on the code when the fill colour is a negative number that denotes the colour the
  start pixel already has. The colour input gives red as \<open>- 65536\<close>; the pencil stores it
  as \<open>0xffff0000\<close>. A fill with the same red that starts on one of two adjacent red pixels
  passes the guard \<^verbatim>\<open>oldColor === newColor\<close>, since \<open>4294901760 \<noteq> - 65536\<close>, and never
  leaves the loop: every store writes the old colour back.
\<close>

theorem fill_same_colour_never_returns:
  "hexToArgb 255 0 0 = - 65536 \<and> toUint32 (- 65536) = 0xffff0000 \<and>
   \<not> sameNumber (Some 0xffff0000) (- 65536) \<and>
   color (state redStrokeStore) = - 65536 \<and> tool (state redStrokeStore) = Fill \<and>
   w (state redStrokeStore) = 32 \<and> h (state redStrokeStore) = 32 \<and>
   (\<exists>fr. activeFrame redStrokeStore = Some fr \<and> int (length fr) = 32 * 32 \<and>
      rd fr (0 * 32 + 0) = Some 0xffff0000 \<and> rd fr (0 * 32 + 1) = Some 0xffff0000) \<and>
   applyToolFill 0 0 redStrokeStore = None"
proof -
  let ?c = "- 65536 :: int"
  have hc: "hexToArgb 255 0 0 = ?c" by (simp add: hexToArgb_def)
  have tc: "toUint32 ?c = 0xffff0000" by (simp add: toUint32_def)
  have ns: "\<not> sameNumber (Some 0xffff0000) ?c" by (simp add: sameNumber_def)
  let ?s1 = "pushUndo (setColor ?c initialStore)"
  let ?s2 = "stamp 0 0 ?c ?s1"
  let ?s3 = "stamp 1 0 ?c ?s2"
  have red: "redStrokeStore = setTool Fill ?s3" by (simp add: redStrokeStore_def hc)
  have st1: "state ?s1 = initialState\<lparr>color := ?c\<rparr>"
    by (simp add: state_pushUndo setColor_def initialStore_def)
  have st2: "state ?s2 = state ?s1" and st3: "state ?s3 = state ?s1"
    by (simp_all add: stamp_def Let_def state_pushRecentColorUsado state_replaceActiveFrame)
  have d1: "w (state ?s1) = 32" "h (state ?s1) = 32" "brushRadius (state ?s1) = 0"
    by (simp_all add: st1 initialState_def)
  have a1: "activeFrame ?s1 = Some (makeFrame 32 32 0)"
    unfolding activeFrame_pushUndo by (simp add: setColor_def initialStore_def activeFrame_def)
  have l1: "int (length (makeFrame 32 32 0)) = w (state ?s1) * h (state ?s1)"
    by (simp add: d1 makeFrame_def)
  from stamp_active [OF a1 l1, of 0 0 ?c] obtain f2 where f2: "activeFrame ?s2 = Some f2"
    "int (length f2) = w (state ?s1) * h (state ?s1)"
    and r2: "\<forall>px py. 0 \<le> px \<and> px < w (state ?s1) \<and> 0 \<le> py \<and> py < h (state ?s1) \<longrightarrow>
              rd f2 (py * w (state ?s1) + px) =
                (if (px, py) \<in> stampSquare (brushRadius (state ?s1)) 0 0 (w (state ?s1)) (h (state ?s1))
                 then Some (toUint32 ?c) else rd (makeFrame 32 32 0) (py * w (state ?s1) + px))"
    by blast
  have f20: "rd f2 (0 * 32 + 0) = Some 0xffff0000"
    using r2 [rule_format, of 0 0] by (simp add: d1 stampSquare_def tc)
  from stamp_active [OF f2(1), of 1 0 ?c] f2(2) obtain f3 where f3: "activeFrame ?s3 = Some f3"
    "int (length f3) = w (state ?s2) * h (state ?s2)"
    and r3: "\<forall>px py. 0 \<le> px \<and> px < w (state ?s2) \<and> 0 \<le> py \<and> py < h (state ?s2) \<longrightarrow>
              rd f3 (py * w (state ?s2) + px) =
                (if (px, py) \<in> stampSquare (brushRadius (state ?s2)) 1 0 (w (state ?s2)) (h (state ?s2))
                 then Some (toUint32 ?c) else rd f2 (py * w (state ?s2) + px))"
    unfolding st2 by blast
  have f30: "rd f3 (0 * 32 + 0) = Some 0xffff0000"
    using r3 [rule_format, of 0 0] f20 by (simp add: st2 d1 stampSquare_def)
  have f31: "rd f3 (0 * 32 + 1) = Some 0xffff0000"
    using r3 [rule_format, of 1 0] by (simp add: st2 d1 stampSquare_def tc)
  have l3: "int (length f3) = 32 * 32" using f3(2) by (simp add: st2 d1)
  have str: "state redStrokeStore = (state ?s1)\<lparr>tool := Fill\<rparr>"
    by (simp add: red setTool_def st3)
  have dr: "color (state redStrokeStore) = ?c" "tool (state redStrokeStore) = Fill"
    "w (state redStrokeStore) = 32" "h (state redStrokeStore) = 32"
    by (simp_all add: str st1 initialState_def)
  have "activeFrame (setTool Fill ?s3) = activeFrame ?s3"
    by (simp add: setTool_def activeFrame_def)
  then have ar: "activeFrame redStrokeStore = Some f3"
    using f3(1) by (simp add: red)
  have pr: "paired 32 32 f3 (toUint32 ?c) (0, 0)"
    unfolding paired_def tc
  proof (intro conjI bexI [of _ "(1, 0)"])
    show "rd f3 (snd (0, 0) * 32 + fst (0, 0)) = Some 0xffff0000" using f30 by simp
    show "rd f3 (snd (1, 0) * 32 + fst (1, 0)) = Some 0xffff0000" using f31 by simp
  qed (simp_all add: pushed_def)
  have "fillLoop 32 32 (Some (toUint32 ?c)) ?c f3 [(0, 0)] = None"
    by (rule fillLoop_never_returns) (use pr in simp)
  then have "floodFill 0 0 f3 32 32 ?c (pushUndo redStrokeStore) = None"
    using f30 ns by (simp add: floodFill_def Let_def tc)
  then have "applyToolFill 0 0 redStrokeStore = None"
    unfolding applyToolFill_def Let_def activeFrame_pushUndo by (simp add: ar dr)
  then show ?thesis using hc tc ns dr ar l3 f30 f31 by blast
qed

subsection \<open>Frame sizes under the store operations\<close>

text \<open>
  Each operation below takes a store whose frames all have the configured size, with the
  active index pointing at a frame where the operation replaces the active frame, to a
  store whose frames all have the configured size; for \<^verbatim>\<open>undo\<close> this depends on the
  snapshot.
\<close>

lemma framesOk_same:
  "frames s' = frames s \<Longrightarrow> state s' = state s \<Longrightarrow> framesOk s' = framesOk s"
  by (simp add: framesOk_def)

lemma framesOk_replace:
  assumes "framesOk s" "int (length out) = w (state s) * h (state s)"
    and "frames s' = (frames s)[i := out]" "state s' = state s"
  shows "framesOk s'"
  using assms set_update_subset_insert [of "frames s" i out] by (auto simp: framesOk_def)

lemma framesOk_pushUndo: "framesOk (pushUndo s) = framesOk s"
  by (rule framesOk_same) (simp_all add: frames_pushUndo state_pushUndo)

lemma framesOk_clearSelection: "framesOk (clearSelection s) = framesOk s"
  by (rule framesOk_same) (simp_all add: frames_clearSelection state_clearSelection)

lemma framesOk_replaceActiveFrame:
  assumes "framesOk s" "int (length out) = w (state s) * h (state s)" and "activeOk s"
  shows "framesOk (replaceActiveFrame out s)"
  using assms(3)
  by (intro framesOk_replace [OF assms(1,2), of _ "nat (active s)"])
    (simp_all add: frames_replaceActiveFrame state_replaceActiveFrame)

lemma framesOk_pushRecentColorUsado: "framesOk (pushRecentColorUsado c s) = framesOk s"
  by (rule framesOk_same) (simp_all add: frames_pushRecentColorUsado state_pushRecentColorUsado)

lemma framesOk_setBrushRadius: "framesOk (setBrushRadius r s) = framesOk s"
  by (simp add: framesOk_def setBrushRadius_def)

lemma framesOk_stamp:
  assumes "framesOk s" "activeFrame s = Some old"
  shows "framesOk (stamp x y c s)"
proof -
  have "old \<in> set (frames s)"
    using assms(2) by (auto simp: activeFrame_def nat_less_iff split: if_splits)
  then have "int (length old) = w (state s) * h (state s)" using assms(1) by (simp add: framesOk_def)
  then show ?thesis
    using assms(1)
    by (intro framesOk_replace [OF assms(1) _ frames_stamp(1) [OF assms(2)] frames_stamp(3) [OF assms(2)]])
      (simp add: stamp_loops_length)
qed

lemma framesOk_addFrame:
  assumes "framesOk s" "0 \<le> w (state s) * h (state s)"
  shows "framesOk (addFrame s)"
  using assms
  by (auto simp: framesOk_def addFrame_def Let_def frames_pushUndo state_pushUndo makeFrame_def)

lemma framesOk_duplicateFrame:
  assumes "framesOk s" "activeOk s"
  shows "framesOk (duplicateFrame s)"
proof -
  have "activeFrame (pushUndo s) = Some (frames s ! nat (active s))"
    using assms(2) by (simp add: activeFrame_pushUndo activeFrame_Some)
  moreover have "frames s ! nat (active s) \<in> set (frames s)"
    using assms(2) by (simp add: activeOk_def nat_less_iff)
  ultimately show ?thesis
    using assms(1)
    by (auto simp: framesOk_def duplicateFrame_def Let_def frames_pushUndo state_pushUndo
        newUint32Array_def)
qed

lemma set_slice: "set (slice xs b e) \<subseteq> set xs"
  unfolding slice_def Let_def by (meson set_take_subset set_drop_subset subset_trans)

lemma framesOk_deleteFrame:
  assumes "framesOk s"
  shows "framesOk (deleteFrame s)"
proof (cases "length (frames s) \<le> 1")
  case True
  then show ?thesis using assms by (simp add: deleteFrame_def)
next
  case False
  then have "frames (deleteFrame s) =
      slice (frames s) 0 (active s) @ slice (frames s) (active s + 1) (int (length (frames s)))"
    by (intro deleteFrame_many) simp
  moreover have "state (deleteFrame s) = state s"
    using False by (simp add: deleteFrame_def Let_def state_clearSelection state_pushUndo)
  ultimately show ?thesis
    using assms set_slice [of "frames s"] by (auto simp: framesOk_def)
qed

lemma framesOk_setCanvasSize: "framesOk s \<Longrightarrow> framesOk (setCanvasSize newW newH s)"
proof (cases "max 8 (min 512 \<lfloor>newW\<rfloor>) = w (state s) \<and> max 8 (min 512 \<lfloor>newH\<rfloor>) = h (state s)")
  case True
  assume "framesOk s"
  then show ?thesis using True by (simp add: setCanvasSize_same)
next
  case False
  then have ch: "max 8 (min 512 \<lfloor>newW\<rfloor>) \<noteq> w (state s) \<or> max 8 (min 512 \<lfloor>newH\<rfloor>) \<noteq> h (state s)"
    by blast
  have "0 \<le> max 8 (min 512 \<lfloor>newW\<rfloor>) * max 8 (min 512 \<lfloor>newH\<rfloor>)" by simp
  then show ?thesis
    unfolding framesOk_def setCanvasSize_changed(1-3) [OF ch]
    by (auto simp: resizeFrame_length)
qed

lemma dropAt_length: "length (fst (fold (dropAt st dx dy) fm a)) = length (fst a)"
  by (induction fm arbitrary: a)
    (auto simp: dropAt_def Let_def length_wr split: prod.splits)

lemma framesOk_stopMoving: "framesOk (stopMoving s) = framesOk s"
  by (simp add: framesOk_def stopMoving_def)

lemma framesOk_endMoveSelection:
  assumes "framesOk s"
    and "\<And>base. baseWhileMoving s = Some base \<Longrightarrow> int (length base) = w (state s) * h (state s)"
    and "activeOk s"
  shows "framesOk (endMoveSelection s)"
proof (cases "moving s \<and> baseWhileMoving s \<noteq> None \<and> floatingPixels s \<noteq> None \<and> selectionMask s \<noteq> None")
  case False
  then show ?thesis
    using assms(1) by (auto simp: endMoveSelection_def framesOk_stopMoving split: option.splits)
next
  case True
  then obtain base floatMap m where b: "baseWhileMoving s = Some base"
    "floatingPixels s = Some floatMap" "selectionMask s = Some m" and mv: "moving s"
    by auto
  obtain out newMask where f: "fold (dropAt (state s) (moveDx s) (moveDy s)) floatMap (base, []) = (out, newMask)"
    by (cases "fold (dropAt (state s) (moveDx s) (moveDy s)) floatMap (base, [])")
  have "length out = length base"
    using dropAt_length [of "state s" "moveDx s" "moveDy s" floatMap "(base, [])"] f by simp
  then have "int (length out) = w (state s) * h (state s)" using assms(2) [OF b(1)] by simp
  then have "framesOk (replaceActiveFrame out s)"
    using assms(3) by (intro framesOk_replaceActiveFrame [OF assms(1)])
  then have "framesOk ((replaceActiveFrame out s)\<lparr>selectionMask := v\<rparr>)" for v
    by (simp add: framesOk_def)
  then show ?thesis
    using mv by (simp add: endMoveSelection_def b f Let_def framesOk_stopMoving)
qed

lemma startMoveSelection_base:
  assumes "framesOk s" "startMoveSelection sx sy s = Inr s'"
  shows "framesOk s' \<and>
     (\<forall>base. baseWhileMoving s' = Some base \<longrightarrow>
        (baseWhileMoving s = Some base \<and> s' = s) \<or> int (length base) = w (state s') * h (state s'))"
proof (cases "selectionMask s")
  case None
  then show ?thesis using assms by (simp add: startMoveSelection_def)
next
  case (Some m)
  show ?thesis
  proof (cases "m = []")
    case True
    then show ?thesis using assms Some by (simp add: startMoveSelection_def)
  next
    case False
    from assms(2) obtain frame where fr: "activeFrame (pushUndo s) = Some frame"
      using Some False by (auto simp: startMoveSelection_def Let_def split: option.splits)
    then have "activeFrame s = Some frame" by (simp add: activeFrame_pushUndo)
    then have "frame \<in> set (frames s)"
      by (auto simp: activeFrame_def nat_less_iff split: if_splits)
    then have len: "int (length frame) = w (state s) * h (state s)"
      using assms(1) by (simp add: framesOk_def)
    obtain base floatMap where f: "fold (liftAt frame) m (frame, []) = (base, floatMap)"
      by (cases "fold (liftAt frame) m (frame, [])")
    have "length (fst (fold (liftAt frame) m a)) = length (fst a)" for a
      by (induction m arbitrary: a) (auto simp: liftAt_def length_wr split: prod.splits)
    from this [of "(frame, [])"] have lb: "length base = length frame" using f by simp
    have s': "s' = (pushUndo s)\<lparr>baseWhileMoving := Some base, floatingPixels := Some floatMap,
        moving := True, moveStart := Some (sx, sy), moveDx := 0, moveDy := 0\<rparr>"
      using assms(2) Some False fr f by (simp add: startMoveSelection_def Let_def)
    show ?thesis
      using assms(1) lb len unfolding s' by (simp add: framesOk_def frames_pushUndo state_pushUndo)
  qed
qed

lemma pasteAt_length:
  "length (fst (fold (\<lambda>y. fold (pasteAt st clip atX atY y) xs) ys a)) = length (fst a)"
proof -
  have 1: "length (fst (fold (pasteAt st clip atX atY y) xs a)) = length (fst a)" for y a
    by (induction xs arbitrary: a)
      (auto simp: pasteAt_def Let_def length_wr split: prod.splits)
  show ?thesis by (induction ys arbitrary: a) (simp_all add: 1)
qed

lemma framesOk_pasteClipboard:
  assumes "framesOk s" "activeOk s"
  shows "framesOk (pasteClipboard atX atY s)"
proof (cases "clipboard s")
  case None
  then show ?thesis using assms by (simp add: pasteClipboard_def)
next
  case (Some clip)
  let ?g = "frames s ! nat (active s)"
  have g: "activeFrame (pushUndo s) = Some ?g"
    using assms(2) by (simp add: activeFrame_pushUndo activeFrame_Some)
  have "?g \<in> set (frames s)" using assms(2) by (simp add: activeOk_def nat_less_iff)
  then have len: "int (length ?g) = w (state s) * h (state s)" using assms(1) by (simp add: framesOk_def)
  obtain out newMask where f:
    "fold (\<lambda>y. fold (pasteAt (state s) clip atX atY y) [0..cw clip - 1]) [0..ch clip - 1] (?g, [])
       = (out, newMask)"
    by (cases "fold (\<lambda>y. fold (pasteAt (state s) clip atX atY y) [0..cw clip - 1]) [0..ch clip - 1] (?g, [])")
  have "length out = length ?g"
    using pasteAt_length [of "state s" clip atX atY "[0..cw clip - 1]" "[0..ch clip - 1]" "(?g, [])"] f
    by simp
  then have "int (length out) = w (state (pushUndo s)) * h (state (pushUndo s))"
    using len by (simp add: state_pushUndo)
  then have "framesOk (replaceActiveFrame out (pushUndo s))"
    using assms
    by (intro framesOk_replaceActiveFrame)
      (simp_all add: framesOk_pushUndo activeOk_def frames_pushUndo active_pushUndo)
  then have "framesOk ((replaceActiveFrame out (pushUndo s))\<lparr>selectionMask := v\<rparr>)" for v
    by (simp add: framesOk_def)
  then show ?thesis
    unfolding pasteClipboard_def Let_def state_pushUndo
    by (simp add: Some g newUint32Array_def f)
qed


lemma fillLoop_length:
  assumes run: "fillLoop W H oldColor newColor out q = Some r"
  shows "length r = length out"
proof (rule fillLoop.raw_induct [where P = "\<lambda>W H oldColor newColor out q r. length r = length out",
      OF _ run])
  fix f :: "int \<Rightarrow> int \<Rightarrow> pixel option \<Rightarrow> int \<Rightarrow> Uint32Array \<Rightarrow> (int \<times> int) list \<Rightarrow> Uint32Array option"
    and W H oldColor newColor out q r
  assume IH: "\<And>W H oldColor newColor out q r. f W H oldColor newColor out q = Some r \<Longrightarrow>
      length r = length out"
    and body: "(case q of
        [] \<Rightarrow> Some out
      | (x, y) # rest \<Rightarrow>
          if rd out (y * W + x) \<noteq> oldColor then f W H oldColor newColor out rest
          else f W H oldColor newColor (wr out (y * W + x) (toUint32 newColor))
                 (pushed W H (x, y) @ rest)) = Some r"
  show "length r = length out"
  proof (cases q)
    case Nil
    then show ?thesis using body by simp
  next
    case (Cons p rest)
    obtain x y where p: "p = (x, y)" by (cases p)
    show ?thesis
    proof (cases "rd out (y * W + x) \<noteq> oldColor")
      case True
      then have "f W H oldColor newColor out rest = Some r" using body Cons p by simp
      then show ?thesis by (rule IH)
    next
      case False
      then have "f W H oldColor newColor (wr out (y * W + x) (toUint32 newColor))
          (pushed W H (x, y) @ rest) = Some r"
        using body Cons p by simp
      from IH [OF this] show ?thesis by (simp add: length_wr)
    qed
  qed
qed

lemma framesOk_floodFill:
  assumes "framesOk s" "activeFrame s = Some frame"
    and "floodFill x y frame W H c s = Some s'"
  shows "framesOk s'"
proof (cases "\<not> inCanvas W H (x, y) \<or> sameNumber (rd frame (y * W + x)) c")
  case True
  then have "floodFill x y frame W H c s = Some s" by (rule floodFill_noop)
  then have "s' = s" using assms(3) by simp
  then show ?thesis using assms(1) by simp
next
  case False
  then have nb: "\<not> (x < 0 \<or> y < 0 \<or> x \<ge> W \<or> y \<ge> H)"
    and ns: "\<not> sameNumber (rd frame (y * W + x)) c"
    by (auto simp: inCanvas_def)
  have eq: "floodFill x y frame W H c s =
      (case fillLoop W H (rd frame (y * W + x)) c frame [(x, y)] of
         None \<Rightarrow> None | Some out \<Rightarrow> Some (replaceActiveFrame out s))"
    unfolding floodFill_def Let_def using nb ns by simp
  show ?thesis
  proof (cases "fillLoop W H (rd frame (y * W + x)) c frame [(x, y)]")
    case None
    then show ?thesis using assms(3) unfolding eq by simp
  next
    case (Some out)
    then have s': "s' = replaceActiveFrame out s" using assms(3) unfolding eq by simp
    have "frame \<in> set (frames s)"
      using assms(2) by (auto simp: activeFrame_def nat_less_iff split: if_splits)
    then have "int (length frame) = w (state s) * h (state s)"
      using assms(1) by (simp add: framesOk_def)
    moreover have "length out = length frame" using Some by (rule fillLoop_length)
    moreover have "activeOk s" using assms(2) by (simp add: activeFrame_Some)
    ultimately show ?thesis
      unfolding s' using assms(1) by (intro framesOk_replaceActiveFrame) simp_all
  qed
qed

lemma framesOk_applyToolFill:
  assumes "framesOk s" "applyToolFill x y s = Some (Inr s')"
  shows "framesOk s'"
proof (cases "activeFrame (pushUndo s)")
  case None
  have "applyToolFill x y s =
      (if x < 0 \<or> y < 0 \<or> x \<ge> w (state s) \<or> y \<ge> h (state s)
       then Some (Inr (pushRecentColorUsado (color (state s)) (pushUndo s)))
       else Some (Inl TypeError))"
    unfolding applyToolFill_def Let_def None by simp
  then have "s' = pushRecentColorUsado (color (state s)) (pushUndo s)"
    using assms(2) by (simp split: if_splits)
  then show ?thesis using assms(1) by (simp add: framesOk_pushRecentColorUsado framesOk_pushUndo)
next
  case (Some frame)
  let ?f = "floodFill x y frame (w (state s)) (h (state s)) (color (state s)) (pushUndo s)"
  have eq: "applyToolFill x y s =
      (case ?f of None \<Rightarrow> None
       | Some s1 \<Rightarrow> Some (Inr (pushRecentColorUsado (color (state s)) s1)))"
    unfolding applyToolFill_def Let_def Some by simp
  show ?thesis
  proof (cases ?f)
    case None
    then show ?thesis using assms(2) unfolding eq by simp
  next
    case f: (Some s1)
    then have s': "s' = pushRecentColorUsado (color (state s)) s1"
      using assms(2) unfolding eq by simp
    have "framesOk (pushUndo s)" using assms(1) by (simp add: framesOk_pushUndo)
    from this Some f have "framesOk s1" by (rule framesOk_floodFill)
    then show ?thesis unfolding s' by (simp add: framesOk_pushRecentColorUsado)
  qed
qed

text \<open>
  \<^verbatim>\<open>undo\<close> keeps the invariant exactly when the frames of the newest snapshot have the
  size that is configured now.
\<close>

lemma framesOk_undo:
  assumes "undoStack s \<noteq> []"
  shows "framesOk (undo s) \<longleftrightarrow>
     (\<forall>fr \<in> set (sframes (last (undoStack s))). int (length fr) = w (state s) * h (state s))"
  using assms by (simp add: framesOk_def undo_nonempty)

text \<open>What \<^verbatim>\<open>undo\<close> gives right after a resize that changed the size.\<close>

lemma undo_setCanvasSize:
  assumes "max 8 (min 512 \<lfloor>newW\<rfloor>) \<noteq> w (state s) \<or> max 8 (min 512 \<lfloor>newH\<rfloor>) \<noteq> h (state s)"
  shows "frames (undo (setCanvasSize newW newH s)) = frames s"
    and "w (state (undo (setCanvasSize newW newH s))) = max 8 (min 512 \<lfloor>newW\<rfloor>)"
    and "h (state (undo (setCanvasSize newW newH s))) = max 8 (min 512 \<lfloor>newH\<rfloor>)"
proof -
  have ne: "undoStack (setCanvasSize newW newH s) \<noteq> []"
    by (simp add: setCanvasSize_changed(5) [OF assms] pushUndo_nonempty)
  show "frames (undo (setCanvasSize newW newH s)) = frames s"
    by (simp add: undo_nonempty(1) [OF ne] setCanvasSize_changed(5) [OF assms] last_pushUndo)
  show "w (state (undo (setCanvasSize newW newH s))) = max 8 (min 512 \<lfloor>newW\<rfloor>)"
    by (simp add: undo_nonempty(4) [OF ne] setCanvasSize_changed(2) [OF assms])
  show "h (state (undo (setCanvasSize newW newH s))) = max 8 (min 512 \<lfloor>newH\<rfloor>)"
    by (simp add: undo_nonempty(4) [OF ne] setCanvasSize_changed(3) [OF assms])
qed

lemma fold_invariant:
  assumes "P a" "\<And>x a. x \<in> set xs \<Longrightarrow> P a \<Longrightarrow> P (f x a)"
  shows "P (fold f xs a)"
  using assms by (induction xs arbitrary: a) simp_all

lemma inBox_scanAt:
  assumes "inBox W H b" "0 \<le> x" "x < W" "0 \<le> y" "y < H"
  shows "inBox W H (scanAt fr W y x b)"
  using assms by (auto simp: inBox_def scanAt_def split: option.splits)

lemma inBox_scanFrame: "inBox W H b \<Longrightarrow> inBox W H (scanFrame W H fr b)"
  unfolding scanFrame_def fold_product
  by (rule fold_invariant) (auto simp: inBox_scanAt)

lemma inBox_scan: "inBox W H (fold (scanFrame W H) fs None)"
proof (rule fold_invariant)
  show "inBox W H None" by (simp add: inBox_def)
qed (rule inBox_scanFrame)

lemma cropFrame_length:
  "0 \<le> newW * newH \<Longrightarrow> int (length (cropFrame W minX minY newW newH fr)) = newW * newH"
proof -
  assume a: "0 \<le> newW * newH"
  have "length (cropFrame W minX minY newW newH fr) = length (makeFrame newW newH 0)"
    unfolding cropFrame_def fold_product
    by (rule fold_length) (auto simp: length_wr)
  then show ?thesis using a by (simp add: length_makeFrame)
qed

lemma centrarFrame_length:
  assumes "int (length frame) = W * H"
  shows "int (length (centrarFrame frame W H)) = W * H"
proof -
  have "length (fold (\<lambda>y. fold (centrarAt frame W H dx dy y) [0..W - 1]) [0..H - 1]
      (makeFrame W H 0)) = length (makeFrame W H 0)" for dx dy
    unfolding fold_product
    by (rule fold_length) (auto simp: centrarAt_def Let_def length_wr)
  moreover have "0 \<le> W * H" using assms by (metis of_nat_0_le_iff)
  ultimately show ?thesis
    using assms
    by (auto simp: centrarFrame_def Let_def length_makeFrame split: option.splits)
qed

text \<open>
  The rectangle \<^verbatim>\<open>autocropTodos\<close> cuts to is at least 1 by 1, so the new arrays can be
  made, and every frame gets the new size.
\<close>

lemma framesOk_autocropTodos:
  assumes "framesOk s"
  shows "framesOk (autocropTodos padding centrar s)"
proof (cases "fold (scanFrame (w (state s)) (h (state s))) (frames s) None")
  case None
  then show ?thesis using assms by (simp add: autocropTodos_def framesOk_def)
next
  case (Some b)
  obtain minX0 minY0 maxX0 maxY0 where b: "b = (minX0, minY0, maxX0, maxY0)" by (cases b)
  let ?W = "w (state s)" and ?H = "h (state s)"
  let ?pad = "max 0 \<lfloor>padding\<rfloor>"
  let ?minX = "max 0 (minX0 - ?pad)" and ?minY = "max 0 (minY0 - ?pad)"
  let ?maxX = "min (?W - 1) (maxX0 + ?pad)" and ?maxY = "min (?H - 1) (maxY0 + ?pad)"
  let ?newW = "?maxX - ?minX + 1" and ?newH = "?maxY - ?minY + 1"
  have "inBox ?W ?H (Some (minX0, minY0, maxX0, maxY0))"
    using inBox_scan [of ?W ?H "frames s"] Some b by simp
  then have pos: "1 \<le> ?newW" "1 \<le> ?newH" by (auto simp: inBox_def)
  then have nn: "0 \<le> ?newW * ?newH" by simp
  let ?rec = "map (cropFrame ?W ?minX ?minY ?newW ?newH) (frames s)"
  let ?cen = "if centrar then map (\<lambda>fr. centrarFrame fr ?newW ?newH) ?rec else ?rec"
  have fr: "frames (autocropTodos padding centrar s) = ?cen"
    and st: "w (state (autocropTodos padding centrar s)) = ?newW"
      "h (state (autocropTodos padding centrar s)) = ?newH"
    unfolding autocropTodos_def Let_def Some b
    by (simp_all add: frames_clearSelection state_clearSelection state_pushUndo)
  have 1: "\<forall>fr \<in> set ?rec. int (length fr) = ?newW * ?newH"
    using nn by (auto simp: cropFrame_length)
  then have 2: "\<forall>fr \<in> set ?cen. int (length fr) = ?newW * ?newH"
    by (auto simp: centrarFrame_length cropFrame_length [OF nn])
  show ?thesis unfolding framesOk_def fr st using 2 .
qed

text \<open>
  C1 holds of the operations above and fails at \<^verbatim>\<open>undo\<close>: a snapshot holds the frames
  and the active index but not the canvas size, so undoing a resize of the initial 32 by 32
  canvas to 16 by 16 brings back the frame of 1024 pixels while the configured size stays
  16 by 16.
\<close>

theorem undo_after_resize_keeps_new_size:
  "frames initialStore = [makeFrame 32 32 0] \<and>
   w (state initialStore) * h (state initialStore) = int (length (makeFrame 32 32 0)) \<and>
   frames (undo (setCanvasSize 16 16 initialStore)) = [makeFrame 32 32 0] \<and>
   w (state (undo (setCanvasSize 16 16 initialStore))) = 16 \<and>
   h (state (undo (setCanvasSize 16 16 initialStore))) = 16 \<and>
   (\<exists>fr \<in> set (frames (undo (setCanvasSize 16 16 initialStore))).
      int (length fr) \<noteq> w (state (undo (setCanvasSize 16 16 initialStore))) *
                          h (state (undo (setCanvasSize 16 16 initialStore))))"
proof -
  have i: "frames initialStore = [makeFrame 32 32 0]" "w (state initialStore) = 32"
    "h (state initialStore) = 32"
    by (simp_all add: initialStore_def initialState_def)
  have ch: "max 8 (min 512 \<lfloor>16::real\<rfloor>) \<noteq> w (state initialStore) \<or>
            max 8 (min 512 \<lfloor>16::real\<rfloor>) \<noteq> h (state initialStore)"
    by (simp add: i)
  note u = undo_setCanvasSize [OF ch]
  show ?thesis by (simp add: u i makeFrame_def)
qed

end
